theory Spec2Isabelle
  imports Main
begin

section \<open>The cube state (class CubeState)\<close>

text \<open>
  A JavaScript string is modelled as a \<open>string\<close>: a list of characters, one per code
  unit, restricted to code units below 256. A sticker colour is the one-letter string the
  source stores (\<open>'W'\<close>, \<open>'Y'\<close>, ...). A face is the array of its nine stickers in reading
  order; \<open>this.faces\<close> is the object with the six keys \<open>U D F B L R\<close>, in this order.
\<close>

type_synonym color = string

record Faces =
  U :: "color list"
  D :: "color list"
  F :: "color list"
  B :: "color list"
  L :: "color list"
  R :: "color list"

record CubeState =
  faces :: Faces
  moveHistory :: "string list"

text \<open>
  The only fault the class can raise: \<open>this.faces[face]\<close> is \<open>undefined\<close> for a key that is
  not one of the six faces, and reading \<open>f[0]\<close> of \<open>undefined\<close> is a \<open>TypeError\<close>.
\<close>

datatype error = TypeError

text \<open>The constructor (and \<open>reset\<close>): every face filled with its colour, empty history.\<close>

definition newCubeState :: CubeState where
  "newCubeState =
     \<lparr> faces = \<lparr> U = replicate 9 ''W'', D = replicate 9 ''Y'', F = replicate 9 ''G'',
                  B = replicate 9 ''B'', L = replicate 9 ''O'', R = replicate 9 ''R'' \<rparr>,
       moveHistory = [] \<rparr>"

definition reset :: "CubeState \<Rightarrow> CubeState" where
  "reset c = newCubeState"

text \<open>
  \<open>clone\<close> copies each face array and the history into a fresh object. With values instead
  of references the copy is the value itself; sharing is the subject of the store model
  further down.
\<close>

definition clone :: "CubeState \<Rightarrow> CubeState" where
  "clone c =
     \<lparr> faces = \<lparr> U = U (faces c), D = D (faces c), F = F (faces c),
                  B = B (faces c), L = L (faces c), R = R (faces c) \<rparr>,
       moveHistory = moveHistory c \<rparr>"

text \<open>The face arrays in the order of \<open>for (const face in this.faces)\<close>.\<close>

definition faceArrays :: "CubeState \<Rightarrow> color list list" where
  "faceArrays c =
     [U (faces c), D (faces c), F (faces c), B (faces c), L (faces c), R (faces c)]"

text \<open>
  Every state the class builds (constructor, \<open>reset\<close>, \<open>clone\<close>, moves) has nine stickers on
  each face. The index reads and writes below are all at the literal positions 0..8, in
  range for such a state.
\<close>

definition wf_cube :: "CubeState \<Rightarrow> bool" where
  "wf_cube c = list_all (\<lambda>f. length f = 9) (faceArrays c)"

definition isSolved :: "CubeState \<Rightarrow> bool" where
  "isSolved c = list_all (\<lambda>f. list_all (\<lambda>x. x = f ! 0) f) (faceArrays c)"

text \<open>\<open>this.faces[face]\<close>: the array of a face key, \<open>None\<close> for \<open>undefined\<close>.\<close>

definition getFace :: "char \<Rightarrow> CubeState \<Rightarrow> color list option" where
  "getFace face c =
     (if face = CHR ''U'' then Some (U (faces c))
      else if face = CHR ''D'' then Some (D (faces c))
      else if face = CHR ''F'' then Some (F (faces c))
      else if face = CHR ''B'' then Some (B (faces c))
      else if face = CHR ''L'' then Some (L (faces c))
      else if face = CHR ''R'' then Some (R (faces c))
      else None)"

definition setFace :: "char \<Rightarrow> color list \<Rightarrow> CubeState \<Rightarrow> CubeState" where
  "setFace face f c =
     (if face = CHR ''U'' then c\<lparr>faces := (faces c)\<lparr>U := f\<rparr>\<rparr>
      else if face = CHR ''D'' then c\<lparr>faces := (faces c)\<lparr>D := f\<rparr>\<rparr>
      else if face = CHR ''F'' then c\<lparr>faces := (faces c)\<lparr>F := f\<rparr>\<rparr>
      else if face = CHR ''B'' then c\<lparr>faces := (faces c)\<lparr>B := f\<rparr>\<rparr>
      else if face = CHR ''L'' then c\<lparr>faces := (faces c)\<lparr>L := f\<rparr>\<rparr>
      else if face = CHR ''R'' then c\<lparr>faces := (faces c)\<lparr>R := f\<rparr>\<rparr>
      else c)"

text \<open>
  \<open>rotateFaceClockwise\<close>: \<open>temp\<close> is a copy of the nine stickers, then the nine assignments
  \<open>f[0] = temp[6]; f[1] = temp[3]; ...\<close> in the order of the source.
\<close>

definition rotateFaceClockwise :: "char \<Rightarrow> CubeState \<Rightarrow> error + CubeState" where
  "rotateFaceClockwise face c =
     (case getFace face c of
        None \<Rightarrow> Inl TypeError
      | Some f \<Rightarrow>
          (let temp = [f ! 0, f ! 1, f ! 2, f ! 3, f ! 4, f ! 5, f ! 6, f ! 7, f ! 8]
           in Inr (setFace face
                (f[0 := temp ! 6, 1 := temp ! 3, 2 := temp ! 0,
                   3 := temp ! 7, 4 := temp ! 4, 5 := temp ! 1,
                   6 := temp ! 8, 7 := temp ! 5, 8 := temp ! 2]) c)))"

definition rotateFaceCounterClockwise :: "char \<Rightarrow> CubeState \<Rightarrow> error + CubeState" where
  "rotateFaceCounterClockwise face c =
     (case getFace face c of
        None \<Rightarrow> Inl TypeError
      | Some f \<Rightarrow>
          (let temp = [f ! 0, f ! 1, f ! 2, f ! 3, f ! 4, f ! 5, f ! 6, f ! 7, f ! 8]
           in Inr (setFace face
                (f[0 := temp ! 2, 1 := temp ! 5, 2 := temp ! 8,
                   3 := temp ! 1, 4 := temp ! 4, 5 := temp ! 7,
                   6 := temp ! 0, 7 := temp ! 3, 8 := temp ! 6]) c)))"

text \<open>
  The \<open>switch\<close> of \<open>applySingleMove\<close>: the four-way cycle of the belt stickers, one case per
  face, each line of the source one list update; no \<open>default\<close> case.
\<close>

definition cycleEdges :: "char \<Rightarrow> Faces \<Rightarrow> Faces" where
  "cycleEdges face fs =
     (if face = CHR ''U'' then
        (let temp = [F fs ! 0, F fs ! 1, F fs ! 2];
             F' = (F fs)[0 := R fs ! 0, 1 := R fs ! 1, 2 := R fs ! 2];
             R' = (R fs)[0 := B fs ! 0, 1 := B fs ! 1, 2 := B fs ! 2];
             B' = (B fs)[0 := L fs ! 0, 1 := L fs ! 1, 2 := L fs ! 2];
             L' = (L fs)[0 := temp ! 0, 1 := temp ! 1, 2 := temp ! 2]
         in fs\<lparr>F := F', R := R', B := B', L := L'\<rparr>)
      else if face = CHR ''D'' then
        (let temp = [F fs ! 6, F fs ! 7, F fs ! 8];
             F' = (F fs)[6 := L fs ! 6, 7 := L fs ! 7, 8 := L fs ! 8];
             L' = (L fs)[6 := B fs ! 6, 7 := B fs ! 7, 8 := B fs ! 8];
             B' = (B fs)[6 := R fs ! 6, 7 := R fs ! 7, 8 := R fs ! 8];
             R' = (R fs)[6 := temp ! 0, 7 := temp ! 1, 8 := temp ! 2]
         in fs\<lparr>F := F', L := L', B := B', R := R'\<rparr>)
      else if face = CHR ''F'' then
        (let temp = [U fs ! 6, U fs ! 7, U fs ! 8];
             U' = (U fs)[6 := L fs ! 8, 7 := L fs ! 5, 8 := L fs ! 2];
             L' = (L fs)[2 := D fs ! 0, 5 := D fs ! 1, 8 := D fs ! 2];
             D' = (D fs)[0 := R fs ! 6, 1 := R fs ! 3, 2 := R fs ! 0];
             R' = (R fs)[0 := temp ! 0, 3 := temp ! 1, 6 := temp ! 2]
         in fs\<lparr>U := U', L := L', D := D', R := R'\<rparr>)
      else if face = CHR ''B'' then
        (let temp = [U fs ! 0, U fs ! 1, U fs ! 2];
             U' = (U fs)[0 := R fs ! 2, 1 := R fs ! 5, 2 := R fs ! 8];
             R' = (R fs)[2 := D fs ! 8, 5 := D fs ! 7, 8 := D fs ! 6];
             D' = (D fs)[6 := L fs ! 0, 7 := L fs ! 3, 8 := L fs ! 6];
             L' = (L fs)[0 := temp ! 2, 3 := temp ! 1, 6 := temp ! 0]
         in fs\<lparr>U := U', R := R', D := D', L := L'\<rparr>)
      else if face = CHR ''L'' then
        (let temp = [U fs ! 0, U fs ! 3, U fs ! 6];
             U' = (U fs)[0 := B fs ! 8, 3 := B fs ! 5, 6 := B fs ! 2];
             B' = (B fs)[2 := D fs ! 6, 5 := D fs ! 3, 8 := D fs ! 0];
             D' = (D fs)[0 := F fs ! 0, 3 := F fs ! 3, 6 := F fs ! 6];
             F' = (F fs)[0 := temp ! 0, 3 := temp ! 1, 6 := temp ! 2]
         in fs\<lparr>U := U', B := B', D := D', F := F'\<rparr>)
      else if face = CHR ''R'' then
        (let temp = [U fs ! 2, U fs ! 5, U fs ! 8];
             U' = (U fs)[2 := F fs ! 2, 5 := F fs ! 5, 8 := F fs ! 8];
             F' = (F fs)[2 := D fs ! 2, 5 := D fs ! 5, 8 := D fs ! 8];
             D' = (D fs)[2 := B fs ! 6, 5 := B fs ! 3, 8 := B fs ! 0];
             B' = (B fs)[0 := temp ! 2, 3 := temp ! 1, 6 := temp ! 0]
         in fs\<lparr>U := U', F := F', D := D', B := B'\<rparr>)
      else fs)"

definition applySingleMove :: "char \<Rightarrow> CubeState \<Rightarrow> error + CubeState" where
  "applySingleMove face c =
     (case rotateFaceClockwise face c of
        Inl e \<Rightarrow> Inl e
      | Inr c' \<Rightarrow> Inr (c'\<lparr>faces := cycleEdges face (faces c')\<rparr>))"

text \<open>The loop \<open>for (let i = 0; i < times; i++) this.applySingleMove(face)\<close>.\<close>

fun repeatSingleMove :: "nat \<Rightarrow> char \<Rightarrow> CubeState \<Rightarrow> error + CubeState" where
  "repeatSingleMove 0 face c = Inr c"
| "repeatSingleMove (Suc n) face c =
     (case applySingleMove face c of
        Inl e \<Rightarrow> Inl e
      | Inr c' \<Rightarrow> repeatSingleMove n face c')"

text \<open>
  \<open>applyMove\<close>: \<open>move[0]\<close> is the face, \<open>move.slice(1)\<close> the modifier. For the empty string
  \<open>move[0]\<close> is \<open>undefined\<close>, which is no key of \<open>faces\<close>, so the first turn raises.
\<close>

abbreviation APOSTROPHE :: char where
  "APOSTROPHE \<equiv> CHR 0x27"

definition moveTimes :: "string \<Rightarrow> nat" where
  "moveTimes modifier =
     (if modifier = ''2'' then 2 else if modifier = [APOSTROPHE] then 3 else 1)"

definition applyMove :: "string \<Rightarrow> bool \<Rightarrow> CubeState \<Rightarrow> error + CubeState" where
  "applyMove move recordHistory c =
     (case move of
        [] \<Rightarrow> Inl TypeError
      | face # modifier \<Rightarrow>
          (case repeatSingleMove (moveTimes modifier) face c of
             Inl e \<Rightarrow> Inl e
           | Inr c' \<Rightarrow>
               Inr (if recordHistory then c'\<lparr>moveHistory := moveHistory c' @ [move]\<rparr> else c')))"

section \<open>Move strings\<close>

text \<open>
  The white space of \<open>trim\<close> and of the regular expression \<open>\\s\<close>, among the code units
  below 256: tab, line feed, vertical tab, form feed, carriage return, space and the
  no-break space.
\<close>

definition isWhiteSpace :: "char \<Rightarrow> bool" where
  "isWhiteSpace ch =
     (ch = CHR 0x09 \<or> ch = CHR 0x0A \<or> ch = CHR 0x0B \<or> ch = CHR 0x0C \<or> ch = CHR 0x0D
      \<or> ch = CHR '' '' \<or> ch = CHR 0xA0)"

definition trim :: "string \<Rightarrow> string" where
  "trim s = rev (dropWhile isWhiteSpace (rev (dropWhile isWhiteSpace s)))"

text \<open>
  \<open>s.split(sep)\<close> for a separator of one character: a cut at every separator, so that two
  separators in a row, or one at either end, give an empty piece; the empty string gives
  one empty piece.
\<close>

fun splitBy :: "(char \<Rightarrow> bool) \<Rightarrow> string \<Rightarrow> string list" where
  "splitBy P [] = [[]]"
| "splitBy P (ch # s) =
     (if P ch then [] # splitBy P s
      else (case splitBy P s of [] \<Rightarrow> [[ch]] | t # ts \<Rightarrow> (ch # t) # ts))"

definition splitOn :: "char \<Rightarrow> string \<Rightarrow> string list" where
  "splitOn sep s = splitBy (\<lambda>ch. ch = sep) s"

text \<open>\<open>s.split(/\\s+/)\<close>: a cut at every maximal run of white space.\<close>

function splitWhiteSpace :: "string \<Rightarrow> string list" where
  "splitWhiteSpace [] = [[]]"
| "splitWhiteSpace (ch # s) =
     (if isWhiteSpace ch then [] # splitWhiteSpace (dropWhile isWhiteSpace s)
      else (case splitWhiteSpace s of [] \<Rightarrow> [[ch]] | t # ts \<Rightarrow> (ch # t) # ts))"
  by pat_completeness auto
termination
  by (relation "measure length") (auto simp: length_dropWhile_le le_imp_less_Suc)

text \<open>\<open>xs.join(sep)\<close>.\<close>

fun join :: "string \<Rightarrow> string list \<Rightarrow> string" where
  "join sep [] = []"
| "join sep [x] = x"
| "join sep (x # y # ys) = x @ sep @ join sep (y # ys)"

text \<open>\<open>moves.trim().split(/\\s+/).filter(m => m)\<close>: the empty string is the falsy one.\<close>

definition moveList :: "string \<Rightarrow> string list" where
  "moveList moves = filter (\<lambda>m. m \<noteq> []) (splitWhiteSpace (trim moves))"

text \<open>The loop of \<open>applyMoves\<close>; a raise ends it.\<close>

fun applyMoveList :: "string list \<Rightarrow> bool \<Rightarrow> CubeState \<Rightarrow> error + CubeState" where
  "applyMoveList [] recordHistory c = Inr c"
| "applyMoveList (move # rest) recordHistory c =
     (case applyMove move recordHistory c of
        Inl e \<Rightarrow> Inl e
      | Inr c' \<Rightarrow> applyMoveList rest recordHistory c')"

definition applyMoves :: "string \<Rightarrow> bool \<Rightarrow> CubeState \<Rightarrow> error + CubeState" where
  "applyMoves moves recordHistory c = applyMoveList (moveList moves) recordHistory c"

text \<open>
  \<open>invertMove\<close>. For the empty string \<open>move[0]\<close> is \<open>undefined\<close>, and \<open>face + "'"\<close> is the
  string \<open>undefined'\<close>.
\<close>

definition invertMove :: "string \<Rightarrow> string" where
  "invertMove move =
     (case move of
        [] \<Rightarrow> ''undefined'' @ [APOSTROPHE]
      | face # modifier \<Rightarrow>
          (if modifier = [APOSTROPHE] then [face]
           else if modifier = ''2'' then move
           else [face, APOSTROPHE]))"

definition invertMoves :: "string \<Rightarrow> string" where
  "invertMoves moves = join '' '' (map invertMove (rev (moveList moves)))"

text \<open>A move in the notation: a face letter, then nothing, an apostrophe or a 2.\<close>

definition isFace :: "char \<Rightarrow> bool" where
  "isFace face = (face \<in> set ''UDFBLR'')"

definition wellFormedMove :: "string \<Rightarrow> bool" where
  "wellFormedMove move =
     (case move of
        [] \<Rightarrow> False
      | face # modifier \<Rightarrow>
          isFace face \<and> (modifier = [] \<or> modifier = [APOSTROPHE] \<or> modifier = ''2''))"

section \<open>Scrambles\<close>

text \<open>The table of \<open>isOppositeFace\<close>; its faces are strings, the empty one at the start.\<close>

definition isOppositeFace :: "string \<Rightarrow> string \<Rightarrow> bool" where
  "isOppositeFace face1 face2 =
     (map_of [(''U'', ''D''), (''D'', ''U''), (''F'', ''B''),
              (''B'', ''F''), (''L'', ''R''), (''R'', ''L'')] face1 = Some face2)"

definition faceNames :: "string list" where
  "faceNames = [''U'', ''D'', ''F'', ''B'', ''L'', ''R'']"

definition modifiers :: "string list" where
  "modifiers = [[], [APOSTROPHE], ''2'']"

text \<open>
  \<open>Math.floor(Math.random() * n)\<close> multiplies a double of \<open>[0, 1)\<close> by \<open>n\<close>, rounds the
  product to a double and floors it. The rounding of doubles is not modelled. The random
  source is given by the outcome of this expression: \<open>random k n\<close> is its value when
  the call number \<open>k\<close> of \<open>Math.random()\<close> (counted from 0) is multiplied by \<open>n\<close>. For
  the two lengths in use, 6 and 3, the rounded product of a double below 1 is below
  \<open>n\<close>, so the value is an index of the array; the theorems assume that much of a source.
  The \<open>do ... while\<close> loop draws a face until one is accepted; it need not end, so the
  result is an option and \<open>None\<close> stands for a loop that never returns.
\<close>

type_synonym randomSource = "nat \<Rightarrow> nat \<Rightarrow> nat"

definition randomIndex :: "randomSource \<Rightarrow> nat \<Rightarrow> nat \<Rightarrow> nat" where
  "randomIndex random k n = random k n"

partial_function (option) drawFace ::
  "randomSource \<Rightarrow> string \<Rightarrow> string \<Rightarrow> nat \<Rightarrow> (string \<times> nat) option" where
  "drawFace random lastFace secondLastFace k =
     (let face = faceNames ! randomIndex random k (length faceNames)
      in if face = lastFace \<or> (face = secondLastFace \<and> isOppositeFace lastFace secondLastFace)
         then drawFace random lastFace secondLastFace (Suc k)
         else Some (face, Suc k))"

text \<open>
  The loop \<open>for (let i = 0; i < length; i++)\<close>: the first argument is the number of
  rounds left, \<open>acc\<close> is the array \<open>moves\<close>.
\<close>

fun scrambleLoop ::
  "nat \<Rightarrow> randomSource \<Rightarrow> string list \<Rightarrow> string \<Rightarrow> string \<Rightarrow> nat \<Rightarrow> string list option" where
  "scrambleLoop 0 random acc lastFace secondLastFace k = Some acc"
| "scrambleLoop (Suc n) random acc lastFace secondLastFace k =
     (case drawFace random lastFace secondLastFace k of
        None \<Rightarrow> None
      | Some (face, k') \<Rightarrow>
          (let modifier = modifiers ! randomIndex random k' (length modifiers)
           in scrambleLoop n random (acc @ [face @ modifier]) face lastFace (Suc k')))"

definition generateScramble :: "nat \<Rightarrow> randomSource \<Rightarrow> string option" where
  "generateScramble len random =
     map_option (join '' '') (scrambleLoop len random [] [] [] 0)"

section \<open>The solution post-processor (class CubeSolver)\<close>

text \<open>\<open>move[0]\<close>, \<open>None\<close> for \<open>undefined\<close>; and the same value inside a string sum.\<close>

definition firstChar :: "string \<Rightarrow> char option" where
  "firstChar move = (case move of [] \<Rightarrow> None | ch # _ \<Rightarrow> Some ch)"

definition faceString :: "string \<Rightarrow> string" where
  "faceString move = (case move of [] \<Rightarrow> ''undefined'' | ch # _ \<Rightarrow> [ch])"

definition getMoveCount :: "string \<Rightarrow> nat" where
  "getMoveCount move =
     (let modifier = tl move
      in if modifier = [APOSTROPHE] then 3 else if modifier = ''2'' then 2 else 1)"

text \<open>
  \<open>combineMoves\<close>, \<open>None\<close> for \<open>null\<close>. The total is 1 only for the counts 2 and 3, so
  \<open>return face\<close> is never reached with \<open>move1\<close> empty and always returns a string.
\<close>

definition combineMoves :: "string \<Rightarrow> string \<Rightarrow> string option" where
  "combineMoves move1 move2 =
     (let face = faceString move1;
          count1 = getMoveCount move1;
          count2 = getMoveCount move2;
          total = (count1 + count2) mod 4
      in if total = 0 then None
         else if total = 1 then Some face
         else if total = 2 then Some (face @ ''2'')
         else if total = 3 then Some (face @ [APOSTROPHE])
         else None)"

text \<open>
  The inner loop of \<open>optimizeSolution\<close>: the first argument is the part of \<open>moves\<close> from
  index \<open>i\<close> on, then \<open>newMoves\<close> and \<open>changed\<close>. A combined move is a non-empty string,
  hence truthy.
\<close>

fun scanMoves :: "string list \<Rightarrow> string list \<Rightarrow> bool \<Rightarrow> string list \<times> bool" where
  "scanMoves [] newMoves changed = (newMoves, changed)"
| "scanMoves [m] newMoves changed = (newMoves @ [m], changed)"
| "scanMoves (current # next # rest) newMoves changed =
     (if firstChar current = firstChar next then
        (case combineMoves current next of
           Some combined \<Rightarrow> scanMoves rest (newMoves @ [combined]) True
         | None \<Rightarrow> scanMoves rest newMoves True)
      else scanMoves (next # rest) (newMoves @ [current]) changed)"

lemma scanMoves_length:
  "length (fst (scanMoves ms acc ch)) \<le> length acc + length ms"
  by (induction ms acc ch rule: scanMoves.induct) (auto split: option.splits)

lemma scanMoves_changed_length:
  "snd (scanMoves ms acc ch) \<Longrightarrow> \<not> ch \<Longrightarrow>
   length (fst (scanMoves ms acc ch)) < length acc + length ms"
proof (induction ms acc ch rule: scanMoves.induct)
  case (3 current "next" rest newMoves changed)
  show ?case
  proof (cases "firstChar current = firstChar next")
    case True
    then show ?thesis
      using scanMoves_length [of rest "newMoves @ [the (combineMoves current next)]" True]
            scanMoves_length [of rest newMoves True]
      by (auto split: option.splits)
  next
    case False
    then show ?thesis using 3 by auto
  qed
qed auto

text \<open>The outer loop \<open>while (changed)\<close>: one pass, then again if the pass combined.\<close>

function optimizeLoop :: "string list \<Rightarrow> string list" where
  "optimizeLoop moves =
     (case scanMoves moves [] False of
        (newMoves, changed) \<Rightarrow> if changed then optimizeLoop newMoves else newMoves)"
  by pat_completeness auto
termination
  apply (relation "measure length")
   apply simp
  subgoal for moves x1 x2
    using scanMoves_changed_length [of moves "[]" False]
    by (cases "scanMoves moves [] False") auto
  done

declare optimizeLoop.simps [simp del]

definition optimizeSolution :: "string \<Rightarrow> string" where
  "optimizeSolution solution =
     (if solution = [] then []
      else join '' '' (optimizeLoop (filter (\<lambda>m. m \<noteq> []) (splitOn CHR '' '' solution))))"

section \<open>The search engine (class CubeSolver)\<close>

text \<open>\<open>this.moves\<close> of the solver, in the declared order.\<close>

definition solverMoves :: "string list" where
  "solverMoves =
     [''U'', [CHR ''U'', APOSTROPHE], ''U2'', ''D'', [CHR ''D'', APOSTROPHE], ''D2'',
      ''F'', [CHR ''F'', APOSTROPHE], ''F2'', ''B'', [CHR ''B'', APOSTROPHE], ''B2'',
      ''L'', [CHR ''L'', APOSTROPHE], ''L2'', ''R'', [CHR ''R'', APOSTROPHE], ''R2'']"

text \<open>
  \<open>estimateMoves\<close>: the stickers that differ from the fixed colour of their face
  (\<open>getCenterColor\<close>, in the order of the keys of \<open>faces\<close>), divided by 12 and floored.
\<close>

definition centerColors :: "color list" where
  "centerColors = [''W'', ''Y'', ''G'', ''B'', ''O'', ''R'']"

definition wrongFacelets :: "CubeState \<Rightarrow> nat" where
  "wrongFacelets state =
     sum_list (map (\<lambda>(centerColor, f). length (filter (\<lambda>color. color \<noteq> centerColor) f))
                   (zip centerColors (faceArrays state)))"

definition estimateMoves :: "CubeState \<Rightarrow> nat" where
  "estimateMoves state = wrongFacelets state div 12"

text \<open>
  The table \<open>opposites\<close>. A lookup under another key is \<open>undefined\<close>, which is \<open>None\<close> here,
  as is \<open>move[0]\<close> of the empty string.
\<close>

definition opposites :: "char option \<Rightarrow> char option" where
  "opposites face =
     (if face = Some CHR ''U'' then Some CHR ''D''
      else if face = Some CHR ''D'' then Some CHR ''U''
      else if face = Some CHR ''F'' then Some CHR ''B''
      else if face = Some CHR ''B'' then Some CHR ''F''
      else if face = Some CHR ''L'' then Some CHR ''R''
      else if face = Some CHR ''R'' then Some CHR ''L''
      else None)"

text \<open>
  \<open>face > lastFace\<close> on one-character strings compares the code units; with
  \<open>undefined\<close> on either side it is false.
\<close>

definition faceGreater :: "char option \<Rightarrow> char option \<Rightarrow> bool" where
  "faceGreater face lastFace =
     (case (face, lastFace) of
        (Some a, Some b) \<Rightarrow> (of_char b :: nat) < of_char a
      | _ \<Rightarrow> False)"

definition isRedundantMove :: "string \<Rightarrow> string \<Rightarrow> bool" where
  "isRedundantMove move lastMove =
     (let face = firstChar move; lastFace = firstChar lastMove
      in if face = lastFace then True
         else if opposites face = lastFace \<and> faceGreater face lastFace then True
         else False)"

text \<open>
  The loop \<open>for (const move of this.moves)\<close> of \<open>search\<close>: the first result that is not
  \<open>null\<close> ends it, a raise ends it too.
\<close>

fun firstResult :: "(string \<Rightarrow> error + string option) \<Rightarrow> string list \<Rightarrow> error + string option" where
  "firstResult body [] = Inr None"
| "firstResult body (move # rest) =
     (case body move of
        Inl e \<Rightarrow> Inl e
      | Inr (Some result) \<Rightarrow> Inr (Some result)
      | Inr None \<Rightarrow> firstResult body rest)"

text \<open>
  \<open>search(state, depth, solution, lastMove)\<close>; \<open>lastMove\<close> is \<open>null\<close> (\<open>None\<close>) at the root.
  A string is truthy when it is not empty.
\<close>

fun search :: "CubeState \<Rightarrow> nat \<Rightarrow> string \<Rightarrow> string option \<Rightarrow> error + string option" where
  "search state 0 solution lastMove = Inr (if isSolved state then Some solution else None)"
| "search state (Suc depth) solution lastMove =
     (if estimateMoves state > Suc depth then Inr None
      else firstResult
        (\<lambda>move.
           if (case lastMove of None \<Rightarrow> False
               | Some l \<Rightarrow> l \<noteq> [] \<and> isRedundantMove move l) then Inr None
           else
             (case applyMove move False (clone state) of
                Inl e \<Rightarrow> Inl e
              | Inr newState \<Rightarrow>
                  (let newSolution = (if solution \<noteq> [] then solution @ '' '' @ move else move)
                   in search newState depth newSolution (Some move))))
        solverMoves)"

text \<open>The loop \<open>for (let depth = 1; depth <= 20; depth++)\<close> of \<open>solve\<close>.\<close>

fun deepen :: "CubeState \<Rightarrow> nat list \<Rightarrow> error + string option" where
  "deepen cubeState [] = Inr None"
| "deepen cubeState (depth # rest) =
     (case search (clone cubeState) depth [] None of
        Inl e \<Rightarrow> Inl e
      | Inr (Some result) \<Rightarrow> Inr (Some result)
      | Inr None \<Rightarrow> deepen cubeState rest)"

definition solve :: "CubeState \<Rightarrow> error + string" where
  "solve cubeState =
     (if isSolved cubeState then Inr []
      else
        (case deepen cubeState [1..<21] of
           Inl e \<Rightarrow> Inl e
         | Inr (Some result) \<Rightarrow> Inr (optimizeSolution result)
         | Inr None \<Rightarrow>
             if moveHistory cubeState \<noteq> []
             then Inr (invertMoves (join '' '' (moveHistory cubeState)))
             else Inr []))"

section \<open>Reachable states\<close>

text \<open>
  The states a program reaches from a freshly constructed cube by calls of \<open>applyMove\<close> and
  \<open>applyMoves\<close> that return.
\<close>

inductive reachable :: "CubeState \<Rightarrow> bool" where
  fresh: "reachable newCubeState"
| byMove: "reachable c \<Longrightarrow> applyMove move recordHistory c = Inr c' \<Longrightarrow> reachable c'"
| byMoves: "reachable c \<Longrightarrow> applyMoves ms recordHistory c = Inr c' \<Longrightarrow> reachable c'"

text \<open>The centre sticker (index 4) of each face, in the order of the keys.\<close>

definition centers :: "CubeState \<Rightarrow> color list" where
  "centers c = map (\<lambda>f. f ! 4) (faceArrays c)"

section \<open>A state no move sequence solves\<close>

text \<open>The number of stickers of one colour on the whole cube.\<close>

definition countColor :: "color \<Rightarrow> CubeState \<Rightarrow> nat" where
  "countColor x c = sum_list (map (\<lambda>y. of_bool (y = x)) (concat (faceArrays c)))"

text \<open>
  A freshly constructed cube whose first \<open>U\<close> sticker was overwritten with yellow: nine
  stickers on each face, colours of the palette, empty history.
\<close>

definition oddCube :: CubeState where
  "oddCube = newCubeState\<lparr>faces := (faces newCubeState)\<lparr>U := ''Y'' # replicate 8 ''W''\<rparr>\<rparr>"

text \<open>\<open>solution ? solution + ' ' + move : move\<close>, the string \<open>search\<close> hands down.\<close>

definition appendMove :: "string \<Rightarrow> string \<Rightarrow> string" where
  "appendMove solution move = (if solution \<noteq> [] then solution @ '' '' @ move else move)"

section \<open>Random sources and the form of a scramble\<close>

text \<open>
  The condition of the \<open>do ... while\<close> loop of \<open>generateScramble\<close>: the drawn face is
  rejected and another is drawn.
\<close>

definition rejected :: "string \<Rightarrow> string \<Rightarrow> string \<Rightarrow> bool" where
  "rejected face lastFace secondLastFace =
     (face = lastFace \<or> (face = secondLastFace \<and> isOppositeFace lastFace secondLastFace))"

text \<open>
  A list of tokens that continues a scramble whose last two faces are \<open>lastFace\<close> and
  \<open>secondLastFace\<close>: each token is a well-formed move whose face the loop accepts.
\<close>

fun scrambleOk :: "string \<Rightarrow> string \<Rightarrow> string list \<Rightarrow> bool" where
  "scrambleOk lastFace secondLastFace [] = True"
| "scrambleOk lastFace secondLastFace (t # ts) =
     (wellFormedMove t \<and> \<not> rejected (take 1 t) lastFace secondLastFace
      \<and> scrambleOk (take 1 t) lastFace ts)"

text \<open>
  Two sources: \<open>Math.random()\<close> returning 0 at every call, so that every index is 0; and
  a source whose call number \<open>k\<close> gives the index \<open>k mod n\<close>, so that the faces come in
  turn.
\<close>

definition stuckRandom :: randomSource where
  "stuckRandom k n = 0"

definition cyclicRandom :: randomSource where
  "cyclicRandom k n = k mod n"

section \<open>The store model: objects and arrays by reference\<close>

text \<open>
  In the source a \<open>CubeState\<close> is an object that refers to its \<open>faces\<close> object and to its
  \<open>moveHistory\<close> array, and the \<open>faces\<close> object refers to the six face arrays; moves write
  into these arrays in place. Here the store holds the arrays, the \<open>faces\<close> objects and
  the \<open>CubeState\<close> objects by address, and \<open>nextAddr\<close> is the first address not yet
  allocated. The functions below are the methods again, on references.
\<close>

type_synonym addr = nat

record FaceRefs =
  refU :: addr
  refD :: addr
  refF :: addr
  refB :: addr
  refL :: addr
  refR :: addr

record CubeObject =
  facesRef :: addr
  moveHistoryRef :: addr

record store =
  arrays :: "addr \<Rightarrow> string list"
  faceObjects :: "addr \<Rightarrow> FaceRefs"
  cubeObjects :: "addr \<Rightarrow> CubeObject"
  nextAddr :: addr

definition newArray :: "string list \<Rightarrow> store \<Rightarrow> addr \<times> store" where
  "newArray xs st =
     (nextAddr st, st\<lparr>arrays := (arrays st)(nextAddr st := xs), nextAddr := Suc (nextAddr st)\<rparr>)"

definition newFaceObject :: "FaceRefs \<Rightarrow> store \<Rightarrow> addr \<times> store" where
  "newFaceObject fo st =
     (nextAddr st,
      st\<lparr>faceObjects := (faceObjects st)(nextAddr st := fo), nextAddr := Suc (nextAddr st)\<rparr>)"

definition newCubeObject :: "CubeObject \<Rightarrow> store \<Rightarrow> addr \<times> store" where
  "newCubeObject co st =
     (nextAddr st,
      st\<lparr>cubeObjects := (cubeObjects st)(nextAddr st := co), nextAddr := Suc (nextAddr st)\<rparr>)"

text \<open>\<open>new CubeState()\<close>: six filled arrays, the \<open>faces\<close> object, the empty history.\<close>

definition construct :: "store \<Rightarrow> addr \<times> store" where
  "construct st0 =
     (let (u, st1) = newArray (replicate 9 ''W'') st0;
          (d, st2) = newArray (replicate 9 ''Y'') st1;
          (f, st3) = newArray (replicate 9 ''G'') st2;
          (b, st4) = newArray (replicate 9 ''B'') st3;
          (l, st5) = newArray (replicate 9 ''O'') st4;
          (r, st6) = newArray (replicate 9 ''R'') st5;
          (fo, st7) = newFaceObject
             \<lparr>refU = u, refD = d, refF = f, refB = b, refL = l, refR = r\<rparr> st6;
          (h, st8) = newArray [] st7
      in newCubeObject \<lparr>facesRef = fo, moveHistoryRef = h\<rparr> st8)"

text \<open>\<open>this.faces\<close> and \<open>this.faces[face]\<close> of the object at \<open>this\<close>.\<close>

definition facesOf :: "addr \<Rightarrow> store \<Rightarrow> FaceRefs" where
  "facesOf this st = faceObjects st (facesRef (cubeObjects st this))"

definition getRef :: "char \<Rightarrow> FaceRefs \<Rightarrow> addr option" where
  "getRef face fo =
     (if face = CHR ''U'' then Some (refU fo)
      else if face = CHR ''D'' then Some (refD fo)
      else if face = CHR ''F'' then Some (refF fo)
      else if face = CHR ''B'' then Some (refB fo)
      else if face = CHR ''L'' then Some (refL fo)
      else if face = CHR ''R'' then Some (refR fo)
      else None)"

definition setRef :: "char \<Rightarrow> addr \<Rightarrow> FaceRefs \<Rightarrow> FaceRefs" where
  "setRef face a fo =
     (if face = CHR ''U'' then fo\<lparr>refU := a\<rparr>
      else if face = CHR ''D'' then fo\<lparr>refD := a\<rparr>
      else if face = CHR ''F'' then fo\<lparr>refF := a\<rparr>
      else if face = CHR ''B'' then fo\<lparr>refB := a\<rparr>
      else if face = CHR ''L'' then fo\<lparr>refL := a\<rparr>
      else if face = CHR ''R'' then fo\<lparr>refR := a\<rparr>
      else fo)"

text \<open>
  One round of the loop of \<open>clone\<close>: \<open>newState.faces[face] = [...this.faces[face]]\<close>, a
  fresh array with the same stickers, stored in the \<open>faces\<close> object of \<open>newState\<close>.
\<close>

definition copyFace :: "addr \<Rightarrow> addr \<Rightarrow> char \<Rightarrow> store \<Rightarrow> store" where
  "copyFace this newState face st =
     (case getRef face (facesOf this st) of
        None \<Rightarrow> st
      | Some a \<Rightarrow>
          (let (n, st1) = newArray (arrays st a) st;
               fo = facesRef (cubeObjects st1 newState)
           in st1\<lparr>faceObjects := (faceObjects st1)(fo := setRef face n (faceObjects st1 fo))\<rparr>))"

definition cloneRef :: "addr \<Rightarrow> store \<Rightarrow> addr \<times> store" where
  "cloneRef this st0 =
     (let (newState, st1) = construct st0;
          st2 = foldl (\<lambda>st face. copyFace this newState face st) st1 ''UDFBLR'';
          (h, st3) = newArray (arrays st2 (moveHistoryRef (cubeObjects st2 this))) st2
      in (newState,
          st3\<lparr>cubeObjects :=
                (cubeObjects st3)(newState := (cubeObjects st3 newState)\<lparr>moveHistoryRef := h\<rparr>)\<rparr>))"

text \<open>The value of the object at \<open>this\<close>: its arrays read into a \<open>CubeState\<close>.\<close>

definition cubeValue :: "store \<Rightarrow> addr \<Rightarrow> CubeState" where
  "cubeValue st this =
     (let fo = facesOf this st
      in \<lparr> faces = \<lparr> U = arrays st (refU fo), D = arrays st (refD fo), F = arrays st (refF fo),
                       B = arrays st (refB fo), L = arrays st (refL fo), R = arrays st (refR fo) \<rparr>,
            moveHistory = arrays st (moveHistoryRef (cubeObjects st this)) \<rparr>)"

definition isSolvedRef :: "addr \<Rightarrow> store \<Rightarrow> bool" where
  "isSolvedRef this st = isSolved (cubeValue st this)"

definition estimateMovesRef :: "addr \<Rightarrow> store \<Rightarrow> nat" where
  "estimateMovesRef this st = estimateMoves (cubeValue st this)"

text \<open>Writing one element of an array in place: \<open>a[i] = v\<close>.\<close>

definition writeElem :: "addr \<Rightarrow> nat \<Rightarrow> color \<Rightarrow> store \<Rightarrow> store" where
  "writeElem a i v st = st\<lparr>arrays := (arrays st)(a := (arrays st a)[i := v])\<rparr>"

text \<open>A run of assignments \<open>a[i] = b[j]\<close>, each reading the store the one before left.\<close>

fun copyElems :: "(addr \<times> nat \<times> addr \<times> nat) list \<Rightarrow> store \<Rightarrow> store" where
  "copyElems [] st = st"
| "copyElems ((a, i, b, j) # rest) st = copyElems rest (writeElem a i (arrays st b ! j) st)"

text \<open>A run of assignments \<open>a[i] = temp[j]\<close> from the values saved in \<open>temp\<close>.\<close>

fun writeElems :: "(addr \<times> nat \<times> color) list \<Rightarrow> store \<Rightarrow> store" where
  "writeElems [] st = st"
| "writeElems ((a, i, v) # rest) st = writeElems rest (writeElem a i v st)"

definition rotateFaceClockwiseRef :: "char \<Rightarrow> addr \<Rightarrow> store \<Rightarrow> error + store" where
  "rotateFaceClockwiseRef face this st =
     (case getRef face (facesOf this st) of
        None \<Rightarrow> Inl TypeError
      | Some a \<Rightarrow>
          (let f = arrays st a;
               temp = [f ! 0, f ! 1, f ! 2, f ! 3, f ! 4, f ! 5, f ! 6, f ! 7, f ! 8]
           in Inr (writeElems
                [(a, 0, temp ! 6), (a, 1, temp ! 3), (a, 2, temp ! 0),
                 (a, 3, temp ! 7), (a, 4, temp ! 4), (a, 5, temp ! 1),
                 (a, 6, temp ! 8), (a, 7, temp ! 5), (a, 8, temp ! 2)] st)))"

text \<open>
  The \<open>switch\<close> of \<open>applySingleMove\<close> on the six references \<open>U D F B L R\<close> taken from
  \<open>this.faces\<close>: \<open>temp\<close> is read first, then the assignments run in the order of the
  source.
\<close>

definition cycleEdgesRef :: "char \<Rightarrow> FaceRefs \<Rightarrow> store \<Rightarrow> store" where
  "cycleEdgesRef face fo st =
     (let u = refU fo; d = refD fo; f = refF fo; b = refB fo; l = refL fo; r = refR fo
      in if face = CHR ''U'' then
           (let temp = [arrays st f ! 0, arrays st f ! 1, arrays st f ! 2]
            in writeElems [(l, 0, temp ! 0), (l, 1, temp ! 1), (l, 2, temp ! 2)]
                 (copyElems [(f, 0, r, 0), (f, 1, r, 1), (f, 2, r, 2),
                             (r, 0, b, 0), (r, 1, b, 1), (r, 2, b, 2),
                             (b, 0, l, 0), (b, 1, l, 1), (b, 2, l, 2)] st))
         else if face = CHR ''D'' then
           (let temp = [arrays st f ! 6, arrays st f ! 7, arrays st f ! 8]
            in writeElems [(r, 6, temp ! 0), (r, 7, temp ! 1), (r, 8, temp ! 2)]
                 (copyElems [(f, 6, l, 6), (f, 7, l, 7), (f, 8, l, 8),
                             (l, 6, b, 6), (l, 7, b, 7), (l, 8, b, 8),
                             (b, 6, r, 6), (b, 7, r, 7), (b, 8, r, 8)] st))
         else if face = CHR ''F'' then
           (let temp = [arrays st u ! 6, arrays st u ! 7, arrays st u ! 8]
            in writeElems [(r, 0, temp ! 0), (r, 3, temp ! 1), (r, 6, temp ! 2)]
                 (copyElems [(u, 6, l, 8), (u, 7, l, 5), (u, 8, l, 2),
                             (l, 2, d, 0), (l, 5, d, 1), (l, 8, d, 2),
                             (d, 0, r, 6), (d, 1, r, 3), (d, 2, r, 0)] st))
         else if face = CHR ''B'' then
           (let temp = [arrays st u ! 0, arrays st u ! 1, arrays st u ! 2]
            in writeElems [(l, 0, temp ! 2), (l, 3, temp ! 1), (l, 6, temp ! 0)]
                 (copyElems [(u, 0, r, 2), (u, 1, r, 5), (u, 2, r, 8),
                             (r, 2, d, 8), (r, 5, d, 7), (r, 8, d, 6),
                             (d, 6, l, 0), (d, 7, l, 3), (d, 8, l, 6)] st))
         else if face = CHR ''L'' then
           (let temp = [arrays st u ! 0, arrays st u ! 3, arrays st u ! 6]
            in writeElems [(f, 0, temp ! 0), (f, 3, temp ! 1), (f, 6, temp ! 2)]
                 (copyElems [(u, 0, b, 8), (u, 3, b, 5), (u, 6, b, 2),
                             (b, 2, d, 6), (b, 5, d, 3), (b, 8, d, 0),
                             (d, 0, f, 0), (d, 3, f, 3), (d, 6, f, 6)] st))
         else if face = CHR ''R'' then
           (let temp = [arrays st u ! 2, arrays st u ! 5, arrays st u ! 8]
            in writeElems [(b, 0, temp ! 2), (b, 3, temp ! 1), (b, 6, temp ! 0)]
                 (copyElems [(u, 2, f, 2), (u, 5, f, 5), (u, 8, f, 8),
                             (f, 2, d, 2), (f, 5, d, 5), (f, 8, d, 8),
                             (d, 2, b, 6), (d, 5, b, 3), (d, 8, b, 0)] st))
         else st)"

definition applySingleMoveRef :: "char \<Rightarrow> addr \<Rightarrow> store \<Rightarrow> error + store" where
  "applySingleMoveRef face this st =
     (case rotateFaceClockwiseRef face this st of
        Inl e \<Rightarrow> Inl e
      | Inr st1 \<Rightarrow> Inr (cycleEdgesRef face (facesOf this st1) st1))"

fun repeatSingleMoveRef :: "nat \<Rightarrow> char \<Rightarrow> addr \<Rightarrow> store \<Rightarrow> error + store" where
  "repeatSingleMoveRef 0 face this st = Inr st"
| "repeatSingleMoveRef (Suc n) face this st =
     (case applySingleMoveRef face this st of
        Inl e \<Rightarrow> Inl e
      | Inr st1 \<Rightarrow> repeatSingleMoveRef n face this st1)"

text \<open>
  \<open>applyMove\<close> on a reference. A raise comes from the first turn, before any write, so
  \<open>Inl\<close> leaves the store as it was.
\<close>

definition applyMoveRef :: "string \<Rightarrow> bool \<Rightarrow> addr \<Rightarrow> store \<Rightarrow> error + store" where
  "applyMoveRef move recordHistory this st =
     (case move of
        [] \<Rightarrow> Inl TypeError
      | face # modifier \<Rightarrow>
          (case repeatSingleMoveRef (moveTimes modifier) face this st of
             Inl e \<Rightarrow> Inl e
           | Inr st1 \<Rightarrow>
               Inr (if recordHistory
                    then (let h = moveHistoryRef (cubeObjects st1 this)
                          in st1\<lparr>arrays := (arrays st1)(h := arrays st1 h @ [move])\<rparr>)
                    else st1)))"

text \<open>\<open>search\<close> and \<open>solve\<close> on a reference, the store handed through.\<close>

fun firstResultRef ::
  "(string \<Rightarrow> store \<Rightarrow> (error + string option) \<times> store) \<Rightarrow> string list \<Rightarrow> store
   \<Rightarrow> (error + string option) \<times> store" where
  "firstResultRef body [] st = (Inr None, st)"
| "firstResultRef body (move # rest) st =
     (case body move st of
        (Inl e, st1) \<Rightarrow> (Inl e, st1)
      | (Inr (Some result), st1) \<Rightarrow> (Inr (Some result), st1)
      | (Inr None, st1) \<Rightarrow> firstResultRef body rest st1)"

fun searchRef ::
  "addr \<Rightarrow> nat \<Rightarrow> string \<Rightarrow> string option \<Rightarrow> store \<Rightarrow> (error + string option) \<times> store" where
  "searchRef state 0 solution lastMove st =
     (Inr (if isSolvedRef state st then Some solution else None), st)"
| "searchRef state (Suc depth) solution lastMove st =
     (if estimateMovesRef state st > Suc depth then (Inr None, st)
      else firstResultRef
        (\<lambda>move st0.
           if (case lastMove of None \<Rightarrow> False
               | Some l \<Rightarrow> l \<noteq> [] \<and> isRedundantMove move l) then (Inr None, st0)
           else
             (case cloneRef state st0 of
                (newState, st1) \<Rightarrow>
                  (case applyMoveRef move False newState st1 of
                     Inl e \<Rightarrow> (Inl e, st1)
                   | Inr st2 \<Rightarrow>
                       searchRef newState depth (appendMove solution move) (Some move) st2)))
        solverMoves st)"

fun deepenRef :: "addr \<Rightarrow> nat list \<Rightarrow> store \<Rightarrow> (error + string option) \<times> store" where
  "deepenRef cubeState [] st = (Inr None, st)"
| "deepenRef cubeState (depth # rest) st =
     (case cloneRef cubeState st of
        (newState, st1) \<Rightarrow>
          (case searchRef newState depth [] None st1 of
             (Inl e, st2) \<Rightarrow> (Inl e, st2)
           | (Inr (Some result), st2) \<Rightarrow> (Inr (Some result), st2)
           | (Inr None, st2) \<Rightarrow> deepenRef cubeState rest st2))"

definition solveRef :: "addr \<Rightarrow> store \<Rightarrow> (error + string) \<times> store" where
  "solveRef cubeState st =
     (if isSolvedRef cubeState st then (Inr [], st)
      else
        (case deepenRef cubeState [1..<21] st of
           (Inl e, st1) \<Rightarrow> (Inl e, st1)
         | (Inr (Some result), st1) \<Rightarrow> (Inr (optimizeSolution result), st1)
         | (Inr None, st1) \<Rightarrow>
             (let history = arrays st1 (moveHistoryRef (cubeObjects st1 cubeState))
              in if history \<noteq> [] then (Inr (invertMoves (join '' '' history)), st1)
                 else (Inr [], st1))))"

text \<open>
  What a call may not touch: every array and object at an address below \<open>n\<close> is the same
  in \<open>st'\<close> as in \<open>st\<close>, and no address was given back.
\<close>

definition unchangedBelow :: "addr \<Rightarrow> store \<Rightarrow> store \<Rightarrow> bool" where
  "unchangedBelow n st st' =
     ((\<forall>a<n. arrays st' a = arrays st a \<and> faceObjects st' a = faceObjects st a
               \<and> cubeObjects st' a = cubeObjects st a)
      \<and> nextAddr st \<le> nextAddr st')"

text \<open>The object at \<open>this\<close> and all it refers to lie below \<open>n\<close> (\<open>allocatedBelow\<close>) or at \<open>n\<close> and above (\<open>freshFrom\<close>).\<close>

definition cubeAddrs :: "addr \<Rightarrow> store \<Rightarrow> addr list" where
  "cubeAddrs this st =
     (let fo = facesOf this st
      in [this, facesRef (cubeObjects st this), moveHistoryRef (cubeObjects st this),
          refU fo, refD fo, refF fo, refB fo, refL fo, refR fo])"

definition allocatedBelow :: "addr \<Rightarrow> addr \<Rightarrow> store \<Rightarrow> bool" where
  "allocatedBelow n this st = list_all (\<lambda>a. a < n) (cubeAddrs this st)"

definition freshFrom :: "addr \<Rightarrow> addr \<Rightarrow> store \<Rightarrow> bool" where
  "freshFrom n this st = list_all (\<lambda>a. n \<le> a) (cubeAddrs this st)"

text \<open>\<open>st'\<close> differs from \<open>st\<close> at most in arrays at addresses from \<open>n\<close> on.\<close>

definition arraysFrom :: "addr \<Rightarrow> store \<Rightarrow> store \<Rightarrow> bool" where
  "arraysFrom n st st' =
     (faceObjects st' = faceObjects st \<and> cubeObjects st' = cubeObjects st
      \<and> nextAddr st' = nextAddr st \<and> (\<forall>a<n. arrays st' a = arrays st a))"

text \<open>
  A store for examples: one cube at address 8, its \<open>faces\<close> object at 6, its history at
  7 and its face arrays at 0 to 5, in the state a constructed cube has after
  \<open>applyMove("U")\<close>.
\<close>

definition turnedStore :: store where
  "turnedStore =
     \<lparr> arrays = (\<lambda>a. [])
         (0 := replicate 9 ''W'',
          1 := replicate 9 ''Y'',
          2 := [''R'', ''R'', ''R'', ''G'', ''G'', ''G'', ''G'', ''G'', ''G''],
          3 := [''O'', ''O'', ''O'', ''B'', ''B'', ''B'', ''B'', ''B'', ''B''],
          4 := [''G'', ''G'', ''G'', ''O'', ''O'', ''O'', ''O'', ''O'', ''O''],
          5 := [''B'', ''B'', ''B'', ''R'', ''R'', ''R'', ''R'', ''R'', ''R''],
          7 := [''U'']),
       faceObjects = (\<lambda>a. \<lparr>refU = 0, refD = 0, refF = 0, refB = 0, refL = 0, refR = 0\<rparr>)
         (6 := \<lparr>refU = 0, refD = 1, refF = 2, refB = 3, refL = 4, refR = 5\<rparr>),
       cubeObjects = (\<lambda>a. \<lparr>facesRef = 0, moveHistoryRef = 0\<rparr>)
         (8 := \<lparr>facesRef = 6, moveHistoryRef = 7\<rparr>),
       nextAddr = 9 \<rparr>"

section \<open>Properties of a quarter turn\<close>

lemma len9: "length xs = 9 \<Longrightarrow> \<exists>a b c d e f g h i. xs = [a, b, c, d, e, f, g, h, i]"
  by (auto simp: length_Suc_conv eval_nat_numeral)

lemma wf_cubeE:
  assumes "wf_cube c"
  obtains u0 u1 u2 u3 u4 u5 u6 u7 u8 d0 d1 d2 d3 d4 d5 d6 d7 d8
          f0 f1 f2 f3 f4 f5 f6 f7 f8 b0 b1 b2 b3 b4 b5 b6 b7 b8
          l0 l1 l2 l3 l4 l5 l6 l7 l8 r0 r1 r2 r3 r4 r5 r6 r7 r8 h
  where "c = \<lparr> faces = \<lparr> U = [u0, u1, u2, u3, u4, u5, u6, u7, u8],
                          D = [d0, d1, d2, d3, d4, d5, d6, d7, d8],
                          F = [f0, f1, f2, f3, f4, f5, f6, f7, f8],
                          B = [b0, b1, b2, b3, b4, b5, b6, b7, b8],
                          L = [l0, l1, l2, l3, l4, l5, l6, l7, l8],
                          R = [r0, r1, r2, r3, r4, r5, r6, r7, r8] \<rparr>,
               moveHistory = h \<rparr>"
proof -
  obtain fs h where c: "c = \<lparr> faces = fs, moveHistory = h \<rparr>"
    by (cases c) auto
  obtain u d f b l r where fs: "fs = \<lparr> U = u, D = d, F = f, B = b, L = l, R = r \<rparr>"
    by (cases fs) auto
  from assms have len: "length u = 9" "length d = 9" "length f = 9"
      "length b = 9" "length l = 9" "length r = 9"
    by (simp_all add: wf_cube_def faceArrays_def c fs)
  from len9 [OF len(1)] obtain u0 u1 u2 u3 u4 u5 u6 u7 u8
    where u: "u = [u0, u1, u2, u3, u4, u5, u6, u7, u8]" by blast
  from len9 [OF len(2)] obtain d0 d1 d2 d3 d4 d5 d6 d7 d8
    where d: "d = [d0, d1, d2, d3, d4, d5, d6, d7, d8]" by blast
  from len9 [OF len(3)] obtain f0 f1 f2 f3 f4 f5 f6 f7 f8
    where f: "f = [f0, f1, f2, f3, f4, f5, f6, f7, f8]" by blast
  from len9 [OF len(4)] obtain b0 b1 b2 b3 b4 b5 b6 b7 b8
    where b: "b = [b0, b1, b2, b3, b4, b5, b6, b7, b8]" by blast
  from len9 [OF len(5)] obtain l0 l1 l2 l3 l4 l5 l6 l7 l8
    where l: "l = [l0, l1, l2, l3, l4, l5, l6, l7, l8]" by blast
  from len9 [OF len(6)] obtain r0 r1 r2 r3 r4 r5 r6 r7 r8
    where r: "r = [r0, r1, r2, r3, r4, r5, r6, r7, r8]" by blast
  show ?thesis
    by (rule that [of u0 u1 u2 u3 u4 u5 u6 u7 u8 d0 d1 d2 d3 d4 d5 d6 d7 d8
          f0 f1 f2 f3 f4 f5 f6 f7 f8 b0 b1 b2 b3 b4 b5 b6 b7 b8
          l0 l1 l2 l3 l4 l5 l6 l7 l8 r0 r1 r2 r3 r4 r5 r6 r7 r8 h])
       (simp add: c fs u d f b l r)
qed

lemmas turn_defs =
  applySingleMove_def rotateFaceClockwise_def getFace_def setFace_def cycleEdges_def Let_def

lemma isFace_cases:
  "isFace f \<Longrightarrow>
   f = CHR ''U'' \<or> f = CHR ''D'' \<or> f = CHR ''F'' \<or> f = CHR ''B'' \<or> f = CHR ''L'' \<or> f = CHR ''R''"
  by (auto simp: isFace_def)

lemma wf_newCubeState: "wf_cube newCubeState"
  by (simp add: wf_cube_def faceArrays_def newCubeState_def)

lemma four_U: "wf_cube c \<Longrightarrow> repeatSingleMove 4 CHR ''U'' c = Inr c"
  by (erule wf_cubeE) (simp add: eval_nat_numeral turn_defs)

lemma four_D: "wf_cube c \<Longrightarrow> repeatSingleMove 4 CHR ''D'' c = Inr c"
  by (erule wf_cubeE) (simp add: eval_nat_numeral turn_defs)

lemma four_F: "wf_cube c \<Longrightarrow> repeatSingleMove 4 CHR ''F'' c = Inr c"
  by (erule wf_cubeE) (simp add: eval_nat_numeral turn_defs)

lemma four_B: "wf_cube c \<Longrightarrow> repeatSingleMove 4 CHR ''B'' c = Inr c"
  by (erule wf_cubeE) (simp add: eval_nat_numeral turn_defs)

lemma four_L: "wf_cube c \<Longrightarrow> repeatSingleMove 4 CHR ''L'' c = Inr c"
  by (erule wf_cubeE) (simp add: eval_nat_numeral turn_defs)

lemma four_R: "wf_cube c \<Longrightarrow> repeatSingleMove 4 CHR ''R'' c = Inr c"
  by (erule wf_cubeE) (simp add: eval_nat_numeral turn_defs)

lemma repeat_four: "wf_cube c \<Longrightarrow> isFace f \<Longrightarrow> repeatSingleMove 4 f c = Inr c"
  using four_U four_D four_F four_B four_L four_R by (auto dest!: isFace_cases)

lemma applySingleMove_Inr: "isFace f \<Longrightarrow> \<exists>c'. applySingleMove f c = Inr c'"
  by (auto dest!: isFace_cases simp: applySingleMove_def rotateFaceClockwise_def getFace_def)

lemma applySingleMove_Inl: "\<not> isFace f \<Longrightarrow> applySingleMove f c = Inl TypeError"
  by (simp add: applySingleMove_def rotateFaceClockwise_def getFace_def isFace_def)

lemma applySingleMove_wf: "applySingleMove f c = Inr c' \<Longrightarrow> wf_cube c \<Longrightarrow> wf_cube c'"
  by (auto simp: turn_defs wf_cube_def faceArrays_def split: if_splits)

lemma applySingleMove_history: "applySingleMove f c = Inr c' \<Longrightarrow> moveHistory c' = moveHistory c"
  by (auto simp: turn_defs split: if_splits)

lemma applySingleMove_centers:
  "applySingleMove f c = Inr c' \<Longrightarrow> wf_cube c \<Longrightarrow> centers c' = centers c"
  by (auto simp: turn_defs wf_cube_def faceArrays_def centers_def split: if_splits)

lemma applySingleMove_faces:
  "faces c1 = faces c2 \<Longrightarrow> applySingleMove f c1 = Inr c1' \<Longrightarrow>
   \<exists>c2'. applySingleMove f c2 = Inr c2' \<and> faces c2' = faces c1'"
  by (auto simp: turn_defs split: if_splits)

lemma repeatSingleMove_add:
  "repeatSingleMove (m + n) f c =
     (case repeatSingleMove m f c of Inl e \<Rightarrow> Inl e | Inr c' \<Rightarrow> repeatSingleMove n f c')"
  by (induction m arbitrary: c) (auto split: sum.splits)

lemma repeatSingleMove_Inr: "isFace f \<Longrightarrow> \<exists>c'. repeatSingleMove n f c = Inr c'"
proof (induction n arbitrary: c)
  case (Suc n)
  from applySingleMove_Inr [OF Suc.prems] obtain c1 where "applySingleMove f c = Inr c1" ..
  with Suc.IH [OF Suc.prems, of c1] show ?case by simp
qed simp

lemma repeatSingleMove_keeps:
  "repeatSingleMove n f c = Inr c' \<Longrightarrow> wf_cube c \<Longrightarrow>
   wf_cube c' \<and> moveHistory c' = moveHistory c \<and> centers c' = centers c"
proof (induction n arbitrary: c)
  case (Suc n)
  then obtain c1 where c1: "applySingleMove f c = Inr c1" and r: "repeatSingleMove n f c1 = Inr c'"
    by (auto split: sum.splits)
  from applySingleMove_wf [OF c1 Suc.prems(2)] have "wf_cube c1" .
  with Suc.IH [OF r] applySingleMove_history [OF c1] applySingleMove_centers [OF c1 Suc.prems(2)]
  show ?case by simp
qed simp

lemma repeatSingleMove_mod4:
  assumes "wf_cube c" "isFace f"
  shows "repeatSingleMove (n mod 4) f c = repeatSingleMove n f c"
proof (induction n rule: less_induct)
  case (less n)
  show ?case
  proof (cases "n < 4")
    case True
    then show ?thesis by simp
  next
    case False
    then have n: "n = 4 + (n - 4)" by simp
    have "repeatSingleMove n f c = repeatSingleMove (n - 4) f c"
      by (subst n, subst repeatSingleMove_add) (simp add: repeat_four [OF assms])
    moreover have "n mod 4 = (n - 4) mod 4"
      using False by (simp add: le_mod_geq)
    ultimately show ?thesis using less [of "n - 4"] False by simp
  qed
qed

section \<open>Properties of moves and move lists\<close>

lemma applyMove_keeps:
  "applyMove move recordHistory c = Inr c' \<Longrightarrow> wf_cube c \<Longrightarrow>
   wf_cube c' \<and> centers c' = centers c"
  by (auto simp: applyMove_def wf_cube_def faceArrays_def centers_def
           split: list.splits sum.splits if_splits dest!: repeatSingleMove_keeps)

lemma applyMoveList_keeps:
  "applyMoveList ms recordHistory c = Inr c' \<Longrightarrow> wf_cube c \<Longrightarrow>
   wf_cube c' \<and> centers c' = centers c"
proof (induction ms arbitrary: c)
  case (Cons m ms)
  then obtain c1 where c1: "applyMove m recordHistory c = Inr c1"
    and r: "applyMoveList ms recordHistory c1 = Inr c'"
    by (auto split: sum.splits)
  from applyMove_keeps [OF c1 Cons.prems(2)] Cons.IH [OF r] show ?case by simp
qed simp

section \<open>The claims about moves\<close>



text \<open>
  Claim C10. In every state reached from a freshly constructed cube by calls of
  \<open>applyMove\<close> and \<open>applyMoves\<close>, the centre sticker of every face has the colour the
  constructor gave it: \<open>W Y G B O R\<close> for \<open>U D F B L R\<close>.
\<close>

theorem centers_fixed:
  "reachable c \<Longrightarrow> wf_cube c \<and> centers c = [''W'', ''Y'', ''G'', ''B'', ''O'', ''R'']"
proof (induction rule: reachable.induct)
  case fresh
  show ?case
    using wf_newCubeState
    by (simp add: centers_def faceArrays_def newCubeState_def eval_nat_numeral)
next
  case (byMove c move recordHistory c')
  with applyMove_keeps [of move recordHistory c c'] show ?case by simp
next
  case (byMoves c ms recordHistory c')
  with applyMoveList_keeps [of "moveList ms" recordHistory c c'] show ?case
    by (simp add: applyMoves_def)
qed

theorem centers_fixed_witness:
  "reachable (projr (applyMoves ''R U2 F''  True newCubeState))
   \<and> centers (projr (applyMoves ''R U2 F'' True newCubeState)) = [''W'', ''Y'', ''G'', ''B'', ''O'', ''R'']"
proof -
  obtain c where c: "applyMoves ''R U2 F'' True newCubeState = Inr c"
    by (simp add: applyMoves_def moveList_def trim_def isWhiteSpace_def applyMove_def
          moveTimes_def turn_defs newCubeState_def eval_nat_numeral)
  have "reachable c" by (rule byMoves [OF fresh c])
  with centers_fixed [of c] c show ?thesis by simp
qed

section \<open>Properties of splitting and joining\<close>

lemma splitBy_not_Nil: "splitBy P s \<noteq> []"
  by (induction s) (auto split: list.splits)

lemma splitBy_clean: "\<forall>x\<in>set t. \<not> P x \<Longrightarrow> splitBy P t = [t]"
  by (induction t) auto

lemma splitBy_append_sep:
  "\<forall>x\<in>set t. \<not> P x \<Longrightarrow> P sep \<Longrightarrow> splitBy P (t @ sep # rest) = t # splitBy P rest"
  by (induction t) auto

lemma join_Cons: "ts \<noteq> [] \<Longrightarrow> join sep (t # ts) = t @ sep @ join sep ts"
  by (cases ts) auto

lemma splitBy_join:
  "\<forall>t\<in>set ts. \<forall>x\<in>set t. \<not> P x \<Longrightarrow> P sep \<Longrightarrow> ts \<noteq> [] \<Longrightarrow>
   splitBy P (join [sep] ts) = ts"
proof (induction ts)
  case (Cons t ts)
  show ?case
  proof (cases "ts = []")
    case True
    with Cons.prems show ?thesis by (simp add: splitBy_clean)
  next
    case False
    with Cons show ?thesis by (simp add: join_Cons splitBy_append_sep)
  qed
qed simp

lemma filter_splitBy_join:
  assumes "\<forall>t\<in>set ts. t \<noteq> [] \<and> (\<forall>x\<in>set t. \<not> P x)" and "P sep"
  shows "filter (\<lambda>m. m \<noteq> []) (splitBy P (join [sep] ts)) = ts"
proof (cases "ts = []")
  case True
  then show ?thesis by simp
next
  case False
  with assms have "splitBy P (join [sep] ts) = ts"
    by (intro splitBy_join) auto
  with assms show ?thesis by (simp add: filter_id_conv)
qed

lemma splitBy_cong: "\<forall>x\<in>set s. P x = Q x \<Longrightarrow> splitBy P s = splitBy Q s"
  by (induction s) auto

lemma splitBy_pieces_clean: "\<forall>t\<in>set (splitBy P s). \<forall>x\<in>set t. \<not> P x"
  by (induction s) (auto split: list.splits)

lemma splitBy_covers: "x \<in> set s \<Longrightarrow> \<not> P x \<Longrightarrow> \<exists>t\<in>set (splitBy P s). x \<in> set t"
  by (induction s) (auto split: list.splits simp: splitBy_not_Nil)

lemma splitBy_skip_run:
  "filter (\<lambda>m. m \<noteq> []) (splitBy P (dropWhile P s)) = filter (\<lambda>m. m \<noteq> []) (splitBy P s)"
  by (induction s) auto

lemma splitBy_snoc_sep: "P sep \<Longrightarrow> splitBy P (s @ [sep]) = splitBy P s @ [[]]"
  by (induction s) (auto split: list.splits simp: splitBy_not_Nil)

lemma splitBy_append_run:
  "\<forall>x\<in>set w. P x \<Longrightarrow>
   filter (\<lambda>m. m \<noteq> []) (splitBy P (s @ w)) = filter (\<lambda>m. m \<noteq> []) (splitBy P s)"
proof (induction w rule: rev_induct)
  case (snoc x w)
  then show ?case
    using splitBy_snoc_sep [of P x "s @ w"] by simp
qed simp

lemma splitBy_trim:
  "filter (\<lambda>m. m \<noteq> []) (splitBy isWhiteSpace (trim s)) =
   filter (\<lambda>m. m \<noteq> []) (splitBy isWhiteSpace s)"
proof -
  let ?d = "dropWhile isWhiteSpace s"
  have "?d = rev (dropWhile isWhiteSpace (rev ?d)) @ rev (takeWhile isWhiteSpace (rev ?d))"
    by (metis rev_append rev_rev_ident takeWhile_dropWhile_id)
  moreover have "\<forall>x\<in>set (rev (takeWhile isWhiteSpace (rev ?d))). isWhiteSpace x"
    by (auto dest: set_takeWhileD)
  ultimately have "filter (\<lambda>m. m \<noteq> []) (splitBy isWhiteSpace ?d) =
      filter (\<lambda>m. m \<noteq> []) (splitBy isWhiteSpace (trim s))"
    unfolding trim_def using splitBy_append_run by metis
  then show ?thesis by (simp add: splitBy_skip_run)
qed

lemma splitWhiteSpace_not_Nil: "splitWhiteSpace s \<noteq> []"
  by (induction s rule: splitWhiteSpace.induct) (auto split: list.splits)

lemma splitWhiteSpace_pieces:
  "splitWhiteSpace s = t # ts \<Longrightarrow> splitBy isWhiteSpace s = t' # ts' \<Longrightarrow>
   t = t' \<and> filter (\<lambda>m. m \<noteq> []) ts = filter (\<lambda>m. m \<noteq> []) ts'"
proof (induction s arbitrary: t ts t' ts' rule: splitWhiteSpace.induct)
  case (2 ch s)
  show ?case
  proof (cases "isWhiteSpace ch")
    case True
    obtain u us where a: "splitWhiteSpace (dropWhile isWhiteSpace s) = u # us"
      using splitWhiteSpace_not_Nil by (cases "splitWhiteSpace (dropWhile isWhiteSpace s)") auto
    obtain u' us' where b: "splitBy isWhiteSpace (dropWhile isWhiteSpace s) = u' # us'"
      using splitBy_not_Nil by (cases "splitBy isWhiteSpace (dropWhile isWhiteSpace s)") auto
    from "2.IH"(1) [OF True a b]
    have "filter (\<lambda>m. m \<noteq> []) (splitWhiteSpace (dropWhile isWhiteSpace s))
        = filter (\<lambda>m. m \<noteq> []) (splitBy isWhiteSpace (dropWhile isWhiteSpace s))"
      by (simp add: a b)
    with True "2.prems" show ?thesis by (auto simp: splitBy_skip_run)
  next
    case False
    obtain u us where a: "splitWhiteSpace s = u # us"
      using splitWhiteSpace_not_Nil by (cases "splitWhiteSpace s") auto
    obtain u' us' where b: "splitBy isWhiteSpace s = u' # us'"
      using splitBy_not_Nil by (cases "splitBy isWhiteSpace s") auto
    from "2.IH"(2) [OF False a b] False "2.prems" a b show ?thesis by auto
  qed
qed simp

lemma moveList_splitBy: "moveList s = filter (\<lambda>m. m \<noteq> []) (splitBy isWhiteSpace s)"
proof -
  obtain u us where a: "splitWhiteSpace (trim s) = u # us"
    using splitWhiteSpace_not_Nil by (cases "splitWhiteSpace (trim s)") auto
  obtain u' us' where b: "splitBy isWhiteSpace (trim s) = u' # us'"
    using splitBy_not_Nil by (cases "splitBy isWhiteSpace (trim s)") auto
  from splitWhiteSpace_pieces [OF a b]
  have "moveList s = filter (\<lambda>m. m \<noteq> []) (splitBy isWhiteSpace (trim s))"
    by (simp add: moveList_def a b)
  then show ?thesis by (simp add: splitBy_trim)
qed

lemma moveList_pieces: "m \<in> set (moveList s) \<Longrightarrow> m \<noteq> [] \<and> (\<forall>x\<in>set m. \<not> isWhiteSpace x)"
  using splitBy_pieces_clean [of isWhiteSpace s] by (auto simp: moveList_splitBy)

lemma moveList_join:
  "\<forall>t\<in>set ts. t \<noteq> [] \<and> (\<forall>x\<in>set t. \<not> isWhiteSpace x) \<Longrightarrow> moveList (join '' '' ts) = ts"
  using filter_splitBy_join [of ts isWhiteSpace "CHR '' ''"]
  by (simp add: moveList_splitBy isWhiteSpace_def)

section \<open>Moves as transformations of the faces\<close>

lemma applyMoveList_append:
  "applyMoveList (xs @ ys) r c =
     (case applyMoveList xs r c of Inl e \<Rightarrow> Inl e | Inr c' \<Rightarrow> applyMoveList ys r c')"
  by (induction xs arbitrary: c) (auto split: sum.splits)

lemma wf_cube_faces: "faces c = faces d \<Longrightarrow> wf_cube c = wf_cube d"
  by (simp add: wf_cube_def faceArrays_def)

lemma repeatSingleMove_faces:
  "faces c = faces d \<Longrightarrow> repeatSingleMove n f c = Inr c' \<Longrightarrow>
   \<exists>d'. repeatSingleMove n f d = Inr d' \<and> faces d' = faces c'"
proof (induction n arbitrary: c d)
  case (Suc n)
  from Suc.prems(2) obtain c1 where c1: "applySingleMove f c = Inr c1"
    and r: "repeatSingleMove n f c1 = Inr c'"
    by (auto split: sum.splits)
  from applySingleMove_faces [OF Suc.prems(1) c1] obtain d1
    where d1: "applySingleMove f d = Inr d1" "faces d1 = faces c1" by blast
  from Suc.IH [OF d1(2) [symmetric] r] d1(1) show ?case by simp
qed simp

lemma applyMove_faces:
  assumes "faces c = faces d" and "applyMove m r c = Inr c'"
  shows "\<exists>d'. applyMove m r' d = Inr d' \<and> faces d' = faces c'"
proof (cases m)
  case Nil
  with assms show ?thesis by (simp add: applyMove_def)
next
  case (Cons f modifier)
  with assms(2) obtain c1 where c1: "repeatSingleMove (moveTimes modifier) f c = Inr c1"
    and "faces c' = faces c1"
    by (auto simp: applyMove_def split: sum.splits if_splits)
  with repeatSingleMove_faces [OF assms(1) c1] Cons show ?thesis
    by (auto simp: applyMove_def)
qed

lemma applyMoveList_faces:
  "faces c = faces d \<Longrightarrow> applyMoveList ms r c = Inr c' \<Longrightarrow>
   \<exists>d'. applyMoveList ms r' d = Inr d' \<and> faces d' = faces c'"
proof (induction ms arbitrary: c d)
  case (Cons m ms)
  from Cons.prems(2) obtain c1 where c1: "applyMove m r c = Inr c1"
    and r: "applyMoveList ms r c1 = Inr c'"
    by (auto split: sum.splits)
  from applyMove_faces [OF Cons.prems(1) c1] obtain d1
    where d1: "applyMove m r' d = Inr d1" "faces d1 = faces c1" by blast
  from Cons.IH [OF d1(2) [symmetric] r] d1(1) show ?case by simp
qed simp

lemma applyMove_Inr:
  "isFace f \<Longrightarrow> \<exists>c'. applyMove (f # modifier) r c = Inr c'"
  using repeatSingleMove_Inr [of f "moveTimes modifier" c] by (auto simp: applyMove_def)

lemma applyMove_Inl:
  assumes "\<not> isFace f"
  shows "applyMove (f # modifier) r c = Inl TypeError"
proof -
  obtain n where "moveTimes modifier = Suc n"
    by (cases "moveTimes modifier") (auto simp: moveTimes_def split: if_splits)
  then show ?thesis
    using assms by (simp add: applyMove_def applySingleMove_Inl)
qed

text \<open>Whether the first character of a token is a face letter.\<close>

lemma applyMoveList_Inr:
  "\<forall>m\<in>set ms. \<exists>f modifier. m = f # modifier \<and> isFace f \<Longrightarrow>
   \<exists>c'. applyMoveList ms r c = Inr c'"
proof (induction ms arbitrary: c)
  case (Cons m ms)
  then obtain f modifier where m: "m = f # modifier" "isFace f" by auto
  from applyMove_Inr [OF m(2), of modifier r c] obtain c1
    where "applyMove m r c = Inr c1" by (auto simp: m)
  with Cons show ?case by simp
qed simp

lemma applyMoveList_Inl:
  "m \<in> set ms \<Longrightarrow> m = f # modifier \<Longrightarrow> \<not> isFace f \<Longrightarrow>
   applyMoveList ms r c = Inl TypeError"
proof (induction ms arbitrary: c)
  case (Cons a ms)
  show ?case
  proof (cases "applyMove a r c")
    case (Inl e)
    then show ?thesis by (cases e) simp
  next
    case (Inr c1)
    with Cons applyMove_Inl [of f modifier r c] show ?thesis by auto
  qed
qed simp

lemma wellFormedMove_cases:
  "wellFormedMove m \<Longrightarrow>
   \<exists>f. isFace f \<and> (m = [f] \<or> m = [f, APOSTROPHE] \<or> m = [f, CHR ''2''])"
  by (auto simp: wellFormedMove_def split: list.splits)

lemma isFace_not_space: "isFace f \<Longrightarrow> \<not> isWhiteSpace f"
  by (auto simp: isFace_def isWhiteSpace_def)

lemma wellFormedMove_piece:
  assumes "wellFormedMove m"
  shows "m \<noteq> [] \<and> (\<forall>x\<in>set m. \<not> isWhiteSpace x)"
proof -
  from wellFormedMove_cases [OF assms] obtain f
    where "isFace f" "m = [f] \<or> m = [f, APOSTROPHE] \<or> m = [f, CHR ''2'']" by blast
  moreover have "\<not> isWhiteSpace APOSTROPHE" "\<not> isWhiteSpace CHR ''2''"
    by (simp_all add: isWhiteSpace_def)
  ultimately show ?thesis by (auto simp: isFace_not_space)
qed

lemma wellFormedMove_invert:
  assumes "wellFormedMove m"
  shows "wellFormedMove (invertMove m)"
proof -
  from wellFormedMove_cases [OF assms] obtain f
    where "isFace f" "m = [f] \<or> m = [f, APOSTROPHE] \<or> m = [f, CHR ''2'']" by blast
  then show ?thesis by (auto simp: invertMove_def wellFormedMove_def)
qed

lemma applyMove_False: "applyMove (f # modifier) False c = repeatSingleMove (moveTimes modifier) f c"
  by (auto simp: applyMove_def split: sum.splits)

lemma moveTimes_invert:
  "wellFormedMove (f # modifier) \<Longrightarrow>
   \<exists>modifier'. invertMove (f # modifier) = f # modifier'
      \<and> moveTimes modifier + moveTimes modifier' = 4"
  by (auto simp: wellFormedMove_def invertMove_def moveTimes_def)

lemma applyMove_invert_False:
  assumes "wf_cube c" and "wellFormedMove m" and "applyMove m False c = Inr c1"
  shows "applyMove (invertMove m) False c1 = Inr c"
proof -
  from assms(2) obtain f modifier where m: "m = f # modifier" and f: "isFace f"
    by (auto simp: wellFormedMove_def split: list.splits)
  from moveTimes_invert [OF assms(2) [unfolded m]] obtain modifier'
    where i: "invertMove m = f # modifier'" "moveTimes modifier + moveTimes modifier' = 4"
    by (auto simp: m)
  have "repeatSingleMove (moveTimes modifier + moveTimes modifier') f c = Inr c"
    using repeat_four [OF assms(1) f] i(2) by simp
  then show ?thesis
    using assms(3) i(1) unfolding m by (simp add: repeatSingleMove_add applyMove_False)
qed

lemma applyMoveList_invert_False:
  "wf_cube c \<Longrightarrow> \<forall>m\<in>set ms. wellFormedMove m \<Longrightarrow> applyMoveList ms False c = Inr c1 \<Longrightarrow>
   applyMoveList (map invertMove (rev ms)) False c1 = Inr c"
proof (induction ms arbitrary: c)
  case (Cons m ms)
  from Cons.prems(3) obtain c' where c': "applyMove m False c = Inr c'"
    and r: "applyMoveList ms False c' = Inr c1"
    by (auto split: sum.splits)
  from applyMove_keeps [OF c' Cons.prems(1)] have "wf_cube c'" by simp
  with Cons.IH [OF _ _ r] Cons.prems(2)
  have "applyMoveList (map invertMove (rev ms)) False c1 = Inr c'" by simp
  moreover from applyMove_invert_False [OF Cons.prems(1) _ c'] Cons.prems(2)
  have "applyMove (invertMove m) False c' = Inr c" by simp
  ultimately show ?case by (simp add: applyMoveList_append)
qed simp

lemma wellFormed_first: "wellFormedMove m \<Longrightarrow> \<exists>f modifier. m = f # modifier \<and> isFace f"
  by (auto simp: wellFormedMove_def split: list.splits)

lemma moveList_invertMoves:
  assumes "\<forall>m\<in>set (moveList s). wellFormedMove m"
  shows "moveList (invertMoves s) = map invertMove (rev (moveList s))"
  unfolding invertMoves_def
proof (rule moveList_join, rule ballI)
  fix t assume "t \<in> set (map invertMove (rev (moveList s)))"
  then obtain m where "m \<in> set (moveList s)" "t = invertMove m" by auto
  with assms have "wellFormedMove t" by (simp add: wellFormedMove_invert)
  then show "t \<noteq> [] \<and> (\<forall>x\<in>set t. \<not> isWhiteSpace x)" by (rule wellFormedMove_piece)
qed

text \<open>
  Claim C2, as amended. \<open>applyMoves\<close> raises no fault on a string each of whose tokens
  starts with a face letter, whatever follows the letter, and for every starting state;
  a modifier that is neither an apostrophe nor a 2 makes the move one quarter turn, and
  the split leaves no empty token. A token that starts with another character raises a
  \<open>TypeError\<close>.
\<close>

theorem applyMoves_no_fault:
  "((\<forall>m\<in>set (moveList s). \<exists>f modifier. m = f # modifier \<and> isFace f)
      \<longrightarrow> (\<exists>c'. applyMoves s r c = Inr c'))
   \<and> ((\<exists>m\<in>set (moveList s). \<exists>f modifier. m = f # modifier \<and> \<not> isFace f)
      \<longrightarrow> applyMoves s r c = Inl TypeError)
   \<and> [] \<notin> set (moveList s)
   \<and> (modifier \<noteq> [APOSTROPHE] \<and> modifier \<noteq> ''2''
      \<longrightarrow> applyMove (face # modifier) False c = applySingleMove face c)"
proof -
  have "\<exists>c'. applyMoves s r c = Inr c'"
    if "\<forall>m\<in>set (moveList s). \<exists>f modifier. m = f # modifier \<and> isFace f"
    using applyMoveList_Inr [OF that] by (simp add: applyMoves_def)
  moreover have "applyMoves s r c = Inl TypeError"
    if "\<exists>m\<in>set (moveList s). \<exists>f modifier. m = f # modifier \<and> \<not> isFace f"
    using that applyMoveList_Inl by (auto simp: applyMoves_def)
  moreover have "[] \<notin> set (moveList s)"
    by (simp add: moveList_def)
  moreover have "applyMove (face # modifier) False c = applySingleMove face c"
    if "modifier \<noteq> [APOSTROPHE] \<and> modifier \<noteq> ''2''"
    using that by (auto simp: applyMove_False moveTimes_def split: sum.splits)
  ultimately show ?thesis by blast
qed

theorem applyMoves_no_fault_witness:
  "moveList ''U  Rx F2'' = [''U'', ''Rx'', ''F2'']
   \<and> (\<exists>c'. applyMoves ''U  Rx F2'' True newCubeState = Inr c')
   \<and> applyMove ''Rx'' False newCubeState = applySingleMove CHR ''R'' newCubeState"
  using applyMoves_no_fault [of "''U  Rx F2''" True newCubeState "''x''" "CHR ''R''"]
  by (simp add: moveList_def trim_def isWhiteSpace_def isFace_def)

text \<open>
  The claim as the specification states it fails: a token whose first character is no
  face letter raises.
\<close>

theorem applyMoves_fault_counterexample:
  "applyMoves ''X'' True newCubeState = Inl TypeError"
  by (simp add: applyMoves_def moveList_def trim_def isWhiteSpace_def applyMove_def
        moveTimes_def applySingleMove_def rotateFaceClockwise_def getFace_def)

text \<open>
  Claim C4. For every string \<open>s\<close> of well-formed move tokens and every cube state with
  nine stickers on each face, applying \<open>s\<close> and then \<open>invertMoves(s)\<close> gives back the faces
  as they were before \<open>s\<close>; the tokens of \<open>invertMoves(s)\<close> are those of \<open>s\<close> in reverse
  order, each inverted: no modifier becomes an apostrophe, an apostrophe becomes no
  modifier, and a 2 stays.
\<close>

theorem invertMoves_undoes:
  assumes "wf_cube c" and "\<forall>m\<in>set (moveList s). wellFormedMove m"
  shows "(\<exists>c1 c2. applyMoves s r c = Inr c1 \<and> applyMoves (invertMoves s) r' c1 = Inr c2
            \<and> faces c2 = faces c)
         \<and> moveList (invertMoves s) = map invertMove (rev (moveList s))
         \<and> invertMove [f] = [f, APOSTROPHE] \<and> invertMove [f, APOSTROPHE] = [f]
         \<and> invertMove [f, CHR ''2''] = [f, CHR ''2'']"
proof -
  let ?ms = "moveList s"
  from assms(2) have "\<forall>m\<in>set ?ms. \<exists>f modifier. m = f # modifier \<and> isFace f"
    by (blast dest: wellFormed_first)
  from applyMoveList_Inr [OF this] obtain c1 where c1: "applyMoveList ?ms r c = Inr c1"
    by blast
  from applyMoveList_faces [OF refl c1] obtain d1
    where d1: "applyMoveList ?ms False c = Inr d1" "faces d1 = faces c1" by blast
  from applyMoveList_invert_False [OF assms d1(1)]
  have "applyMoveList (map invertMove (rev ?ms)) False d1 = Inr c" .
  from applyMoveList_faces [OF d1(2) this] obtain c2
    where c2: "applyMoveList (map invertMove (rev ?ms)) r' c1 = Inr c2" "faces c2 = faces c"
    by blast
  have inv: "moveList (invertMoves s) = map invertMove (rev ?ms)"
    by (rule moveList_invertMoves [OF assms(2)])
  have "invertMove [f] = [f, APOSTROPHE] \<and> invertMove [f, APOSTROPHE] = [f]
         \<and> invertMove [f, CHR ''2''] = [f, CHR ''2'']"
    by (simp add: invertMove_def)
  with c1 c2 inv show ?thesis by (simp add: applyMoves_def)
qed

theorem invertMoves_undoes_witness:
  "wf_cube newCubeState \<and> moveList ''R' U F2'' = [[CHR ''R'', APOSTROPHE], ''U'', ''F2'']
   \<and> invertMoves ''R' U F2'' = ''F2 U' R''
   \<and> (\<exists>c1 c2. applyMoves ''R' U F2'' True newCubeState = Inr c1
         \<and> applyMoves ''F2 U' R'' False c1 = Inr c2 \<and> faces c2 = faces newCubeState)"
proof -
  have m: "moveList ''R' U F2'' = [[CHR ''R'', APOSTROPHE], ''U'', ''F2'']"
    by (simp add: moveList_def trim_def isWhiteSpace_def)
  have i: "invertMoves ''R' U F2'' = ''F2 U' R''"
    by (simp add: invertMoves_def m invertMove_def)
  show ?thesis
    using invertMoves_undoes [of newCubeState "''R' U F2''" True False] wf_newCubeState
    by (simp add: m i wellFormedMove_def isFace_def)
qed

section \<open>Properties of the post-processor\<close>

lemma scanMoves_True: "ch \<Longrightarrow> snd (scanMoves ms acc ch)"
  by (induction ms acc ch rule: scanMoves.induct) (simp_all split: option.splits)

lemma scanMoves_unchanged:
  "\<not> snd (scanMoves ms acc ch) \<Longrightarrow> fst (scanMoves ms acc ch) = acc @ ms \<and> \<not> ch"
proof (induction ms acc ch rule: scanMoves.induct)
  case (1 newMoves changed)
  then show ?case by simp
next
  case (2 m newMoves changed)
  then show ?case by simp
next
  case (3 current nxt rest newMoves changed)
  show ?case
  proof (cases "firstChar current = firstChar nxt")
    case True
    have "snd (scanMoves (current # nxt # rest) newMoves changed)"
      using True scanMoves_True [of True rest] by (simp split: option.splits)
    with "3.prems" show ?thesis by simp
  next
    case False
    with "3.prems" have "\<not> snd (scanMoves (nxt # rest) (newMoves @ [current]) changed)"
      by simp
    from "3.IH"(3) [OF False this] False show ?thesis by auto
  qed
qed

lemma scanMoves_fixed: "\<not> snd (scanMoves ms [] False) \<Longrightarrow> scanMoves ms [] False = (ms, False)"
  using scanMoves_unchanged [of ms "[]" False] by (simp add: prod_eq_iff)

lemma optimizeLoop_fixed:
  "scanMoves (optimizeLoop ms) [] False = (optimizeLoop ms, False)"
proof (induction ms rule: optimizeLoop.induct)
  case (1 ms)
  obtain newMoves changed where s: "scanMoves ms [] False = (newMoves, changed)"
    by (cases "scanMoves ms [] False")
  show ?case
  proof (cases changed)
    case True
    with s have "optimizeLoop ms = optimizeLoop newMoves"
      by (subst optimizeLoop.simps) simp
    with "1.IH" [OF s [symmetric] True] show ?thesis by simp
  next
    case False
    with s scanMoves_fixed [of ms] have "newMoves = ms" by simp
    with s False have "optimizeLoop ms = ms"
      by (subst optimizeLoop.simps) simp
    with s False \<open>newMoves = ms\<close> show ?thesis by simp
  qed
qed

lemma optimizeLoop_idem: "optimizeLoop (optimizeLoop ms) = optimizeLoop ms"
proof -
  have "optimizeLoop (optimizeLoop ms) =
      (case scanMoves (optimizeLoop ms) [] False of
         (newMoves, changed) \<Rightarrow> if changed then optimizeLoop newMoves else newMoves)"
    by (rule optimizeLoop.simps)
  also have "\<dots> = optimizeLoop ms"
    by (simp only: optimizeLoop_fixed prod.case if_False)
  finally show ?thesis .
qed

text \<open>A token as \<open>split(' ')\<close> and the filter leave it: not empty, no space in it.\<close>

lemma combineMoves_piece:
  "combineMoves current nxt = Some combined \<Longrightarrow>
   current \<noteq> [] \<Longrightarrow> CHR '' '' \<notin> set current \<Longrightarrow>
   combined \<noteq> [] \<and> CHR '' '' \<notin> set combined"
  by (cases current) (auto simp: combineMoves_def faceString_def Let_def split: if_splits)

lemma scanMoves_pieces:
  "\<forall>m\<in>set (ms @ acc). m \<noteq> [] \<and> CHR '' '' \<notin> set m \<Longrightarrow>
   \<forall>m\<in>set (fst (scanMoves ms acc ch)). m \<noteq> [] \<and> CHR '' '' \<notin> set m"
proof (induction ms acc ch rule: scanMoves.induct)
  case (1 newMoves changed)
  then show ?case by simp
next
  case (2 m newMoves changed)
  then show ?case by simp
next
  case (3 current nxt rest newMoves changed)
  show ?case
  proof (cases "firstChar current = firstChar nxt")
    case True
    show ?thesis
    proof (cases "combineMoves current nxt")
      case None
      from "3.prems" have "\<forall>m\<in>set (rest @ newMoves). m \<noteq> [] \<and> CHR '' '' \<notin> set m"
        by simp
      from "3.IH"(1) [OF True None this] True None show ?thesis by simp
    next
      case (Some combined)
      from combineMoves_piece [OF Some] "3.prems"
      have "\<forall>m\<in>set (rest @ newMoves @ [combined]). m \<noteq> [] \<and> CHR '' '' \<notin> set m"
        by simp
      from "3.IH"(2) [OF True Some this] True Some show ?thesis by simp
    qed
  next
    case False
    from "3.prems" have "\<forall>m\<in>set ((nxt # rest) @ newMoves @ [current]).
        m \<noteq> [] \<and> CHR '' '' \<notin> set m"
      by simp
    from "3.IH"(3) [OF False this] False show ?thesis by simp
  qed
qed

lemma optimizeLoop_pieces:
  "\<forall>m\<in>set ms. m \<noteq> [] \<and> CHR '' '' \<notin> set m \<Longrightarrow>
   \<forall>m\<in>set (optimizeLoop ms). m \<noteq> [] \<and> CHR '' '' \<notin> set m"
proof (induction ms rule: optimizeLoop.induct)
  case (1 ms)
  obtain newMoves changed where s: "scanMoves ms [] False = (newMoves, changed)"
    by (cases "scanMoves ms [] False")
  from scanMoves_pieces [of ms "[]" False] "1.prems" s
  have n: "\<forall>m\<in>set newMoves. m \<noteq> [] \<and> CHR '' '' \<notin> set m" by simp
  show ?case
  proof (cases changed)
    case True
    with s have "optimizeLoop ms = optimizeLoop newMoves"
      by (subst optimizeLoop.simps) simp
    with "1.IH" [OF s [symmetric] True n] show ?thesis by simp
  next
    case False
    with s have "optimizeLoop ms = newMoves"
      by (subst optimizeLoop.simps) simp
    with n show ?thesis by simp
  qed
qed

lemma spaceTokens_pieces:
  "\<forall>m\<in>set (filter (\<lambda>m. m \<noteq> []) (splitOn CHR '' '' s)). m \<noteq> [] \<and> CHR '' '' \<notin> set m"
  using splitBy_pieces_clean [of "\<lambda>ch. ch = CHR '' ''" s] by (auto simp: splitOn_def)

lemma spaceTokens_join:
  "\<forall>m\<in>set ts. m \<noteq> [] \<and> CHR '' '' \<notin> set m \<Longrightarrow>
   filter (\<lambda>m. m \<noteq> []) (splitOn CHR '' '' (join '' '' ts)) = ts"
  unfolding splitOn_def
  by (rule filter_splitBy_join [of ts "\<lambda>ch. ch = CHR '' ''" "CHR '' ''"]) auto

lemma join_Nil_iff:
  assumes "\<forall>m\<in>set ts. m \<noteq> []"
  shows "join sep ts = [] \<longleftrightarrow> ts = []"
proof (cases ts)
  case (Cons x xs)
  with assms show ?thesis by (cases xs) auto
qed simp

text \<open>
  Claim C6. \<open>optimizeSolution\<close> is idempotent: for every string \<open>s\<close>,
  \<open>optimizeSolution(optimizeSolution(s))\<close> is \<open>optimizeSolution(s)\<close>.
\<close>

theorem optimizeSolution_idempotent:
  "optimizeSolution (optimizeSolution s) = optimizeSolution s"
proof (cases "s = []")
  case True
  then show ?thesis by (simp add: optimizeSolution_def)
next
  case False
  define ts where "ts = optimizeLoop (filter (\<lambda>m. m \<noteq> []) (splitOn CHR '' '' s))"
  have o: "optimizeSolution s = join '' '' ts"
    using False by (simp add: optimizeSolution_def ts_def)
  have p: "\<forall>m\<in>set ts. m \<noteq> [] \<and> CHR '' '' \<notin> set m"
    unfolding ts_def by (rule optimizeLoop_pieces [OF spaceTokens_pieces])
  have i: "optimizeLoop ts = ts"
    unfolding ts_def by (rule optimizeLoop_idem)
  show ?thesis
  proof (cases "ts = []")
    case True
    then have "join '' '' ts = []" by simp
    then show ?thesis unfolding o by (simp add: optimizeSolution_def)
  next
    case False
    with p have n: "join '' '' ts \<noteq> []" by (simp add: join_Nil_iff)
    have "optimizeSolution (join '' '' ts)
        = join '' '' (optimizeLoop (filter (\<lambda>m. m \<noteq> []) (splitOn CHR '' '' (join '' '' ts))))"
      using n by (simp add: optimizeSolution_def)
    also have "\<dots> = join '' '' ts"
      by (simp only: spaceTokens_join [OF p] i)
    finally show ?thesis unfolding o .
  qed
qed

section \<open>The post-processor keeps the transformation\<close>

lemma optimizeLoop_unfold:
  "optimizeLoop ms =
     (if snd (scanMoves ms [] False) then optimizeLoop (fst (scanMoves ms [] False))
      else fst (scanMoves ms [] False))"
  by (subst optimizeLoop.simps) (simp add: case_prod_unfold)

lemma getMoveCount_Cons: "getMoveCount (f # modifier) = moveTimes modifier"
  by (simp add: getMoveCount_def moveTimes_def)

lemma combineMoves_turns:
  assumes "wf_cube c" and "wellFormedMove current" and "wellFormedMove nxt"
    and "firstChar current = firstChar nxt"
  shows "applyMoveList (case combineMoves current nxt of None \<Rightarrow> [] | Some m \<Rightarrow> [m]) False c
       = applyMoveList [current, nxt] False c"
    and "\<forall>m. combineMoves current nxt = Some m \<longrightarrow> wellFormedMove m"
proof -
  from assms(2,3,4) obtain f m1 m2 where cur: "current = f # m1" and nxt: "nxt = f # m2"
    and f: "isFace f"
    by (auto simp: wellFormedMove_def firstChar_def split: list.splits)
  let ?t = "(moveTimes m1 + moveTimes m2) mod 4"
  have both: "applyMoveList [current, nxt] False c = repeatSingleMove ?t f c"
    using repeatSingleMove_mod4 [OF assms(1) f, of "moveTimes m1 + moveTimes m2"]
    by (simp add: cur nxt applyMove_False repeatSingleMove_add split: sum.splits)
  have "?t < 4" by simp
  then consider "?t = 0" | "?t = 1" | "?t = 2" | "?t = 3" by linarith
  then have "applyMoveList (case combineMoves current nxt of None \<Rightarrow> [] | Some m \<Rightarrow> [m]) False c
       = repeatSingleMove ?t f c
     \<and> (\<forall>m. combineMoves current nxt = Some m \<longrightarrow> wellFormedMove m)"
  proof cases
    case 1
    then show ?thesis
      by (simp add: combineMoves_def cur nxt getMoveCount_Cons)
  next
    case 2
    then show ?thesis using f
      by (simp add: combineMoves_def cur nxt getMoveCount_Cons faceString_def applyMove_False
            moveTimes_def wellFormedMove_def split: sum.splits)
  next
    case 3
    then show ?thesis using f
      by (simp add: combineMoves_def cur nxt getMoveCount_Cons faceString_def applyMove_False
            moveTimes_def wellFormedMove_def split: sum.splits)
  next
    case 4
    then show ?thesis using f
      by (simp add: combineMoves_def cur nxt getMoveCount_Cons faceString_def applyMove_False
            moveTimes_def wellFormedMove_def split: sum.splits)
  qed
  with both show
    "applyMoveList (case combineMoves current nxt of None \<Rightarrow> [] | Some m \<Rightarrow> [m]) False c
       = applyMoveList [current, nxt] False c"
    and "\<forall>m. combineMoves current nxt = Some m \<longrightarrow> wellFormedMove m"
    by simp_all
qed

lemma applyMoveList_cong_mid:
  assumes "wf_cube c"
    and "\<And>c1. wf_cube c1 \<Longrightarrow> applyMoveList xs False c1 = applyMoveList ys False c1"
  shows "applyMoveList (pre @ xs @ post) False c = applyMoveList (pre @ ys @ post) False c"
proof (cases "applyMoveList pre False c")
  case (Inl e)
  then show ?thesis by (simp add: applyMoveList_append)
next
  case (Inr c1)
  from applyMoveList_keeps [OF Inr assms(1)] have "wf_cube c1" by simp
  from assms(2) [OF this] Inr show ?thesis by (simp add: applyMoveList_append)
qed

lemma scanMoves_turns:
  "\<forall>m\<in>set (ms @ acc). wellFormedMove m \<Longrightarrow>
   (\<forall>m\<in>set (fst (scanMoves ms acc ch)). wellFormedMove m)
   \<and> (\<forall>c. wf_cube c \<longrightarrow>
         applyMoveList (fst (scanMoves ms acc ch)) False c = applyMoveList (acc @ ms) False c)"
proof (induction ms acc ch rule: scanMoves.induct)
  case (1 newMoves changed)
  then show ?case by simp
next
  case (2 m newMoves changed)
  then show ?case by simp
next
  case (3 current nxt rest newMoves changed)
  from "3.prems" have wfm: "wellFormedMove current" "wellFormedMove nxt" by simp_all
  show ?case
  proof (cases "firstChar current = firstChar nxt")
    case True
    note turns = combineMoves_turns [OF _ wfm True]
    show ?thesis
    proof (cases "combineMoves current nxt")
      case None
      from "3.prems" have "\<forall>m\<in>set (rest @ newMoves). wellFormedMove m" by simp
      from "3.IH"(1) [OF True None this]
      have ih: "\<forall>m\<in>set (fst (scanMoves rest newMoves True)). wellFormedMove m"
        "\<And>c. wf_cube c \<Longrightarrow> applyMoveList (fst (scanMoves rest newMoves True)) False c
            = applyMoveList (newMoves @ rest) False c"
        by simp_all
      have "applyMoveList (newMoves @ [] @ rest) False c
          = applyMoveList (newMoves @ [current, nxt] @ rest) False c" if "wf_cube c" for c
        using turns(1) None by (intro applyMoveList_cong_mid [OF that]) simp
      with ih True None show ?thesis by simp
    next
      case (Some combined)
      from turns(2) [OF wf_newCubeState] Some have "wellFormedMove combined" by simp
      with "3.prems" have "\<forall>m\<in>set (rest @ newMoves @ [combined]). wellFormedMove m" by simp
      from "3.IH"(2) [OF True Some this]
      have ih: "\<forall>m\<in>set (fst (scanMoves rest (newMoves @ [combined]) True)). wellFormedMove m"
        "\<And>c. wf_cube c \<Longrightarrow>
            applyMoveList (fst (scanMoves rest (newMoves @ [combined]) True)) False c
            = applyMoveList ((newMoves @ [combined]) @ rest) False c"
        by simp_all
      have "applyMoveList (newMoves @ [combined] @ rest) False c
          = applyMoveList (newMoves @ [current, nxt] @ rest) False c" if "wf_cube c" for c
        using turns(1) Some by (intro applyMoveList_cong_mid [OF that]) simp
      with ih True Some show ?thesis by simp
    qed
  next
    case False
    from "3.prems" have "\<forall>m\<in>set ((nxt # rest) @ newMoves @ [current]). wellFormedMove m"
      by simp
    from "3.IH"(3) [OF False this] False show ?thesis by simp
  qed
qed

lemma optimizeLoop_turns:
  "\<forall>m\<in>set ms. wellFormedMove m \<Longrightarrow>
   (\<forall>m\<in>set (optimizeLoop ms). wellFormedMove m)
   \<and> (\<forall>c. wf_cube c \<longrightarrow> applyMoveList (optimizeLoop ms) False c = applyMoveList ms False c)"
proof (induction ms rule: optimizeLoop.induct)
  case (1 ms)
  obtain newMoves changed where s: "scanMoves ms [] False = (newMoves, changed)"
    by (cases "scanMoves ms [] False")
  from scanMoves_turns [of ms "[]" False] "1.prems" s
  have n: "\<forall>m\<in>set newMoves. wellFormedMove m"
    "\<And>c. wf_cube c \<Longrightarrow> applyMoveList newMoves False c = applyMoveList ms False c"
    by simp_all
  show ?case
  proof (cases changed)
    case True
    with s have "optimizeLoop ms = optimizeLoop newMoves"
      by (subst optimizeLoop.simps) simp
    with "1.IH" [OF s [symmetric] True n(1)] n(2) show ?thesis by simp
  next
    case False
    with s have "optimizeLoop ms = newMoves"
      by (subst optimizeLoop.simps) simp
    with n show ?thesis by simp
  qed
qed

lemma moveList_spaceTokens:
  assumes "\<forall>m\<in>set (filter (\<lambda>m. m \<noteq> []) (splitOn CHR '' '' s)). wellFormedMove m"
  shows "moveList s = filter (\<lambda>m. m \<noteq> []) (splitOn CHR '' '' s)"
proof -
  have "isWhiteSpace x = (x = CHR '' '')" if x: "x \<in> set s" for x
  proof (cases "x = CHR '' ''")
    case True
    then show ?thesis by (simp add: isWhiteSpace_def)
  next
    case False
    from splitBy_covers [of x s "\<lambda>ch. ch = CHR '' ''", OF x False]
    obtain t where t: "t \<in> set (splitOn CHR '' '' s)" "x \<in> set t"
      by (auto simp: splitOn_def)
    then have "t \<noteq> []" by auto
    with t assms have "wellFormedMove t" by simp
    from wellFormedMove_piece [OF this] t(2) False show ?thesis by simp
  qed
  then have "splitBy isWhiteSpace s = splitBy (\<lambda>ch. ch = CHR '' '') s"
    by (intro splitBy_cong) simp
  then show ?thesis by (simp add: moveList_splitBy splitOn_def)
qed

lemma optimizeSolution_turns:
  assumes "wf_cube c"
    and "\<forall>m\<in>set (filter (\<lambda>m. m \<noteq> []) (splitOn CHR '' '' s)). wellFormedMove m"
  shows "\<exists>c1 c2. applyMoves s r c = Inr c1 \<and> applyMoves (optimizeSolution s) r' c = Inr c2
           \<and> faces c2 = faces c1"
proof -
  define ts where "ts = filter (\<lambda>m. m \<noteq> []) (splitOn CHR '' '' s)"
  from assms(2) have wfm: "\<forall>m\<in>set ts. wellFormedMove m" by (simp add: ts_def)
  have ms: "moveList s = ts"
    unfolding ts_def by (rule moveList_spaceTokens [OF assms(2)])
  note opt = optimizeLoop_turns [OF wfm]
  have "moveList (join '' '' (optimizeLoop ts)) = optimizeLoop ts"
    using opt by (intro moveList_join) (blast dest: wellFormedMove_piece)
  moreover have "s = [] \<Longrightarrow> optimizeLoop ts = []"
    by (simp add: ts_def splitOn_def optimizeLoop_unfold)
  moreover have "moveList [] = []"
    by (simp add: moveList_def trim_def)
  ultimately have mo: "moveList (optimizeSolution s) = optimizeLoop ts"
    by (simp add: optimizeSolution_def ts_def)
  from wfm have "\<forall>m\<in>set ts. \<exists>f modifier. m = f # modifier \<and> isFace f"
    by (blast dest: wellFormed_first)
  from applyMoveList_Inr [OF this] obtain c1 where c1: "applyMoveList ts r c = Inr c1"
    by blast
  from applyMoveList_faces [OF refl c1] obtain d
    where d: "applyMoveList ts False c = Inr d" "faces d = faces c1" by blast
  from opt assms(1) d(1) have "applyMoveList (optimizeLoop ts) False c = Inr d" by simp
  from applyMoveList_faces [OF refl this] obtain c2
    where "applyMoveList (optimizeLoop ts) r' c = Inr c2" "faces c2 = faces d" by blast
  with c1 d(2) show ?thesis by (simp add: applyMoves_def ms mo)
qed

text \<open>
  Claim C5, as amended. For every string \<open>s\<close> of well-formed move tokens separated by
  space characters only (every non-empty piece of \<open>s.split(' ')\<close>, the split of
  \<open>optimizeSolution\<close>, is a well-formed move), and every cube state with nine stickers
  on each face, applying \<open>optimizeSolution(s)\<close> gives the same faces as applying \<open>s\<close>.
\<close>

theorem optimizeSolution_equivalent:
  assumes "wf_cube c"
    and "\<forall>m\<in>set (filter (\<lambda>m. m \<noteq> []) (splitOn CHR '' '' s)). wellFormedMove m"
  shows "\<exists>c1 c2. applyMoves s r c = Inr c1 \<and> applyMoves (optimizeSolution s) r' c = Inr c2
           \<and> faces c2 = faces c1"
  using assms by (rule optimizeSolution_turns)

theorem optimizeSolution_equivalent_witness:
  "wf_cube newCubeState
   \<and> filter (\<lambda>m. m \<noteq> []) (splitOn CHR '' '' ''R R U U2 F'') = [''R'', ''R'', ''U'', ''U2'', ''F'']
   \<and> optimizeSolution ''R R U U2 F'' = ''R2 U' F''
   \<and> (\<exists>c1 c2. applyMoves ''R R U U2 F'' False newCubeState = Inr c1
         \<and> applyMoves ''R2 U' F'' False newCubeState = Inr c2 \<and> faces c2 = faces c1)"
proof -
  have t: "filter (\<lambda>m. m \<noteq> []) (splitOn CHR '' '' ''R R U U2 F'')
      = [''R'', ''R'', ''U'', ''U2'', ''F'']"
    by (simp add: splitOn_def)
  have o: "optimizeSolution ''R R U U2 F'' = ''R2 U' F''"
    by (simp add: optimizeSolution_def t optimizeLoop_unfold firstChar_def combineMoves_def
          getMoveCount_def faceString_def)
  show ?thesis
    using optimizeSolution_equivalent [of newCubeState "''R R U U2 F''" False False]
      wf_newCubeState
    by (simp add: t o wellFormedMove_def isFace_def)
qed

text \<open>
  The claim as the specification states it fails on a string whose tokens are separated
  by another white-space character. In \<open>R<TAB>R R\<close> the tokens of \<open>applyMoves\<close> are
  \<open>R\<close>, \<open>R\<close>, \<open>R\<close>, all well-formed; \<open>optimizeSolution\<close> splits at the space only, takes
  \<open>R<TAB>R\<close> for one move of count 1 and returns \<open>R2\<close>: two quarter turns instead of
  three.
\<close>

theorem optimizeSolution_equivalent_counterexample:
  "moveList [CHR ''R'', CHR 0x09, CHR ''R'', CHR '' '', CHR ''R''] = [''R'', ''R'', ''R'']
   \<and> wellFormedMove ''R''
   \<and> optimizeSolution [CHR ''R'', CHR 0x09, CHR ''R'', CHR '' '', CHR ''R''] = ''R2''
   \<and> (\<exists>c1 c2. applyMoves [CHR ''R'', CHR 0x09, CHR ''R'', CHR '' '', CHR ''R''] False
                   newCubeState = Inr c1
         \<and> applyMoves (optimizeSolution [CHR ''R'', CHR 0x09, CHR ''R'', CHR '' '', CHR ''R''])
               False newCubeState = Inr c2
         \<and> faces c2 \<noteq> faces c1)"
proof -
  have m: "moveList [CHR ''R'', CHR 0x09, CHR ''R'', CHR '' '', CHR ''R''] = [''R'', ''R'', ''R'']"
    by (simp add: moveList_def trim_def isWhiteSpace_def)
  have o: "optimizeSolution [CHR ''R'', CHR 0x09, CHR ''R'', CHR '' '', CHR ''R''] = ''R2''"
    by (simp add: optimizeSolution_def splitOn_def optimizeLoop_unfold firstChar_def
          combineMoves_def getMoveCount_def faceString_def)
  have m2: "moveList ''R2'' = [''R2'']"
    by (simp add: moveList_def trim_def isWhiteSpace_def)
  have w: "wellFormedMove ''R''"
    by (simp add: wellFormedMove_def isFace_def)
  have "\<exists>c1 c2. applyMoveList [''R'', ''R'', ''R''] False newCubeState = Inr c1
         \<and> applyMoveList [''R2''] False newCubeState = Inr c2 \<and> faces c2 \<noteq> faces c1"
    by (simp add: applyMove_def moveTimes_def turn_defs newCubeState_def eval_nat_numeral)
  with m o m2 w show ?thesis by (simp add: applyMoves_def)
qed

text \<open>
  Claim C7. Two consecutive moves on the same face are combined by the sum of their
  quarter-turn counts (none 1, apostrophe 3, 2 for 2) modulo 4: total 0 leaves nothing,
  1 the face letter, 2 the letter with 2, 3 the letter with an apostrophe. The table is
  written out for a face letter \<open>f\<close>; and \<open>R R R R\<close> gives the empty string, \<open>U U2\<close>
  gives \<open>U'\<close>.
\<close>

theorem combine_same_face:
  assumes "isFace f"
  shows "getMoveCount [f] = 1 \<and> getMoveCount [f, APOSTROPHE] = 3 \<and> getMoveCount [f, CHR ''2''] = 2
    \<and> combineMoves [f] [f] = Some [f, CHR ''2'']
    \<and> combineMoves [f] [f, APOSTROPHE] = None
    \<and> combineMoves [f] [f, CHR ''2''] = Some [f, APOSTROPHE]
    \<and> combineMoves [f, APOSTROPHE] [f] = None
    \<and> combineMoves [f, APOSTROPHE] [f, APOSTROPHE] = Some [f, CHR ''2'']
    \<and> combineMoves [f, APOSTROPHE] [f, CHR ''2''] = Some [f]
    \<and> combineMoves [f, CHR ''2''] [f] = Some [f, APOSTROPHE]
    \<and> combineMoves [f, CHR ''2''] [f, APOSTROPHE] = Some [f]
    \<and> combineMoves [f, CHR ''2''] [f, CHR ''2''] = None
    \<and> optimizeSolution ([f] @ '' '' @ [f]) = [f, CHR ''2'']
    \<and> optimizeSolution ([f] @ '' '' @ [f, APOSTROPHE]) = []
    \<and> optimizeSolution ([f] @ '' '' @ [f, CHR ''2'']) = [f, APOSTROPHE]
    \<and> optimizeSolution ([f, APOSTROPHE] @ '' '' @ [f, CHR ''2'']) = [f]
    \<and> optimizeSolution ''R R R R'' = []
    \<and> optimizeSolution ''U U2'' = ''U'' @ [APOSTROPHE]"
proof -
  from assms have [simp]: "f \<noteq> CHR '' ''" by (auto simp: isFace_def)
  show ?thesis
    by (simp add: optimizeSolution_def splitOn_def optimizeLoop_unfold firstChar_def
          combineMoves_def getMoveCount_def faceString_def)
qed

theorem combine_same_face_witness:
  "isFace CHR ''L'' \<and> optimizeSolution ''L L2'' = ''L'' @ [APOSTROPHE]
   \<and> combineMoves ''L'' ''L2'' = Some (''L'' @ [APOSTROPHE])"
  using combine_same_face [of "CHR ''L''"] by (simp add: isFace_def)

section \<open>Properties of the search\<close>

lemma clone_id: "clone c = c"
  by (simp add: clone_def)

lemma countColor_U:
  "wf_cube c \<Longrightarrow>
   \<exists>c'. applySingleMove CHR ''U'' c = Inr c' \<and> countColor x c' = countColor x c"
  by (erule wf_cubeE) (simp add: turn_defs countColor_def faceArrays_def)

lemma countColor_D:
  "wf_cube c \<Longrightarrow>
   \<exists>c'. applySingleMove CHR ''D'' c = Inr c' \<and> countColor x c' = countColor x c"
  by (erule wf_cubeE) (simp add: turn_defs countColor_def faceArrays_def)

lemma countColor_F:
  "wf_cube c \<Longrightarrow>
   \<exists>c'. applySingleMove CHR ''F'' c = Inr c' \<and> countColor x c' = countColor x c"
  by (erule wf_cubeE) (simp add: turn_defs countColor_def faceArrays_def)

lemma countColor_B:
  "wf_cube c \<Longrightarrow>
   \<exists>c'. applySingleMove CHR ''B'' c = Inr c' \<and> countColor x c' = countColor x c"
  by (erule wf_cubeE) (simp add: turn_defs countColor_def faceArrays_def)

lemma countColor_L:
  "wf_cube c \<Longrightarrow>
   \<exists>c'. applySingleMove CHR ''L'' c = Inr c' \<and> countColor x c' = countColor x c"
  by (erule wf_cubeE) (simp add: turn_defs countColor_def faceArrays_def)

lemma countColor_R:
  "wf_cube c \<Longrightarrow>
   \<exists>c'. applySingleMove CHR ''R'' c = Inr c' \<and> countColor x c' = countColor x c"
  by (erule wf_cubeE) (simp add: turn_defs countColor_def faceArrays_def)

lemma countColor_turn:
  assumes "wf_cube c" and "applySingleMove f c = Inr c'"
  shows "countColor x c' = countColor x c"
proof (cases "isFace f")
  case True
  from isFace_cases [OF True] countColor_U [OF assms(1), of x] countColor_D [OF assms(1), of x]
    countColor_F [OF assms(1), of x] countColor_B [OF assms(1), of x]
    countColor_L [OF assms(1), of x] countColor_R [OF assms(1), of x] assms(2)
  show ?thesis by auto
next
  case False
  with assms(2) show ?thesis by (simp add: applySingleMove_Inl)
qed

lemma countColor_repeat:
  "wf_cube c \<Longrightarrow> repeatSingleMove n f c = Inr c' \<Longrightarrow> countColor x c' = countColor x c"
proof (induction n arbitrary: c)
  case (Suc n)
  from Suc.prems(2) obtain c1 where c1: "applySingleMove f c = Inr c1"
    and r: "repeatSingleMove n f c1 = Inr c'"
    by (auto split: sum.splits)
  from applySingleMove_wf [OF c1 Suc.prems(1)] have "wf_cube c1" .
  from Suc.IH [OF this r] countColor_turn [OF Suc.prems(1) c1] show ?case by simp
qed simp

lemma countColor_move:
  assumes "wf_cube c" and "applyMove m False c = Inr c'"
  shows "countColor x c' = countColor x c"
proof (cases m)
  case Nil
  with assms(2) show ?thesis by (simp add: applyMove_def)
next
  case (Cons f modifier)
  with assms countColor_repeat [of c "moveTimes modifier" f c' x] show ?thesis
    by (simp add: applyMove_False)
qed

lemma solved_countColor:
  assumes "wf_cube c" and "isSolved c"
  shows "countColor x c mod 9 = 0"
proof -
  have one: "sum_list (map (\<lambda>y. of_bool (y = x)) f) mod 9 = (0::nat)"
    if "length f = 9" "list_all (\<lambda>y. y = f ! 0) f" for f :: "color list"
  proof -
    from len9 [OF that(1)] obtain a b c d e g h i j where "f = [a, b, c, d, e, g, h, i, j]"
      by blast
    with that(2) show ?thesis by simp
  qed
  from assms have "\<forall>f\<in>set (faceArrays c). sum_list (map (\<lambda>y. of_bool (y = x)) f) mod 9 = (0::nat)"
    by (auto simp: wf_cube_def isSolved_def list_all_iff intro!: one)
  then have "sum_list (map (\<lambda>y. of_bool (y = x)) (concat fs)) mod 9 = (0::nat)"
    if "fs = faceArrays c" for fs
    unfolding that [symmetric]
    by (induction fs) (auto simp: mod_add_eq [symmetric] mod_add_left_eq [symmetric] simp del: mod_add_eq)
  then show ?thesis by (simp add: countColor_def)
qed

lemma wellFormed_solverMoves: "m \<in> set solverMoves \<Longrightarrow> wellFormedMove m"
  by (auto simp: solverMoves_def wellFormedMove_def isFace_def)

lemma firstResult_None:
  "\<forall>m\<in>set ms. body m = Inr None \<Longrightarrow> firstResult body ms = Inr None"
  by (induction ms) auto

lemma firstResult_Some:
  "firstResult body ms = Inr (Some r) \<Longrightarrow> \<exists>m\<in>set ms. body m = Inr (Some r)"
  by (induction ms) (auto split: sum.splits option.splits)

lemma firstResult_Inl:
  "firstResult body ms = Inl e \<Longrightarrow> \<exists>m\<in>set ms. body m = Inl e"
  by (induction ms) (auto split: sum.splits option.splits)

lemma search_unsolvable:
  "wf_cube st \<Longrightarrow> countColor x st mod 9 \<noteq> 0 \<Longrightarrow> search st d sol lastMove = Inr None"
proof (induction d arbitrary: st sol lastMove)
  case 0
  with solved_countColor [of st x] show ?case by auto
next
  case (Suc d)
  show ?case
  proof (cases "estimateMoves st > Suc d")
    case True
    then show ?thesis by simp
  next
    case False
    have "(if (case lastMove of None \<Rightarrow> False | Some l \<Rightarrow> l \<noteq> [] \<and> isRedundantMove m l)
           then Inr None
           else (case applyMove m False (clone st) of
                   Inl e \<Rightarrow> Inl e
                 | Inr newState \<Rightarrow>
                     (let newSolution = (if sol \<noteq> [] then sol @ '' '' @ m else m)
                      in search newState d newSolution (Some m)))) = Inr None"
      if m: "m \<in> set solverMoves" for m
    proof -
      from wellFormed_first [OF wellFormed_solverMoves [OF m]] obtain f modifier
        where "m = f # modifier" "isFace f" by blast
      with applyMove_Inr [of f modifier False st] obtain new
        where new: "applyMove m False st = Inr new" by auto
      from applyMove_keeps [OF new Suc.prems(1)] have "wf_cube new" by simp
      moreover from countColor_move [OF Suc.prems(1) new] Suc.prems(2)
      have "countColor x new mod 9 \<noteq> 0" by simp
      ultimately have "search new d s (Some m) = Inr None" for s
        by (rule Suc.IH)
      with new show ?thesis by (simp add: clone_id)
    qed
    with False show ?thesis by (simp add: firstResult_None)
  qed
qed

lemma deepen_None:
  "\<forall>d\<in>set ds. search (clone c) d [] None = Inr None \<Longrightarrow> deepen c ds = Inr None"
  by (induction ds) auto

lemma deepen_None_iff:
  "deepen c ds = Inr None \<longleftrightarrow> (\<forall>d\<in>set ds. search (clone c) d [] None = Inr None)"
  by (induction ds) (auto split: sum.splits option.splits)

lemma deepen_Some:
  "deepen c ds = Inr (Some r) \<Longrightarrow> \<exists>d\<in>set ds. search (clone c) d [] None = Inr (Some r)"
  by (induction ds) (auto split: sum.splits option.splits)

lemma deepen_Inl:
  "deepen c ds = Inl e \<Longrightarrow> \<exists>d\<in>set ds. search (clone c) d [] None = Inl e"
  by (induction ds) (auto split: sum.splits option.splits)

lemma search_no_error: "search st d sol lastMove \<noteq> Inl e"
proof (induction d arbitrary: st sol lastMove)
  case 0
  show ?case by simp
next
  case (Suc d)
  show ?case
  proof
    assume a: "search st (Suc d) sol lastMove = Inl e"
    then have "\<not> estimateMoves st > Suc d" by (auto split: if_splits)
    with a firstResult_Inl obtain m where m: "m \<in> set solverMoves"
      and b: "(if (case lastMove of None \<Rightarrow> False | Some l \<Rightarrow> l \<noteq> [] \<and> isRedundantMove m l)
           then Inr None
           else (case applyMove m False (clone st) of
                   Inl e \<Rightarrow> Inl e
                 | Inr newState \<Rightarrow>
                     (let newSolution = (if sol \<noteq> [] then sol @ '' '' @ m else m)
                      in search newState d newSolution (Some m)))) = Inl e"
      by (fastforce split: if_splits)
    from wellFormed_first [OF wellFormed_solverMoves [OF m]] obtain f modifier
      where "m = f # modifier" "isFace f" by blast
    with applyMove_Inr [of f modifier False st] obtain new
      where new: "applyMove m False st = Inr new" by auto
    with b Suc.IH show False by (auto simp: clone_id split: if_splits)
  qed
qed

lemma search_sound:
  "search st d sol lastMove = Inr (Some r) \<Longrightarrow>
   \<exists>ms fin. set ms \<subseteq> set solverMoves \<and> length ms = d \<and> r = foldl appendMove sol ms
      \<and> applyMoveList ms False st = Inr fin \<and> isSolved fin"
proof (induction d arbitrary: st sol lastMove)
  case 0
  then show ?case by (auto split: if_splits)
next
  case (Suc d)
  from Suc.prems have "\<not> estimateMoves st > Suc d" by (auto split: if_splits)
  with Suc.prems firstResult_Some obtain m where m: "m \<in> set solverMoves"
    and b: "(if (case lastMove of None \<Rightarrow> False | Some l \<Rightarrow> l \<noteq> [] \<and> isRedundantMove m l)
           then Inr None
           else (case applyMove m False (clone st) of
                   Inl e \<Rightarrow> Inl e
                 | Inr newState \<Rightarrow>
                     (let newSolution = (if sol \<noteq> [] then sol @ '' '' @ m else m)
                      in search newState d newSolution (Some m)))) = Inr (Some r)"
    by (fastforce split: if_splits)
  then obtain new where new: "applyMove m False st = Inr new"
    and s: "search new d (appendMove sol m) (Some m) = Inr (Some r)"
    by (auto simp: clone_id appendMove_def split: if_splits sum.splits)
  from Suc.IH [OF s] obtain ms fin where "set ms \<subseteq> set solverMoves" "length ms = d"
    "r = foldl appendMove (appendMove sol m) ms" "applyMoveList ms False new = Inr fin"
    "isSolved fin" by blast
  with m new show ?case
    by (intro exI [of _ "m # ms"] exI [of _ fin]) simp
qed

lemma foldl_appendMove:
  "\<forall>m\<in>set (pre @ ms). m \<noteq> [] \<Longrightarrow> foldl appendMove (join '' '' pre) ms = join '' '' (pre @ ms)"
proof (induction ms arbitrary: pre)
  case (Cons m ms)
  have "appendMove (join '' '' pre) m = join '' '' (pre @ [m])"
  proof (cases "pre = []")
    case True
    then show ?thesis by (simp add: appendMove_def)
  next
    case False
    have j: "join '' '' (xs @ [m]) = join '' '' xs @ '' '' @ m" if "xs \<noteq> []" for xs
      using that by (induction xs rule: join.induct [where ?a0.0 = "'' ''"]) auto
    from False Cons.prems have "join '' '' pre \<noteq> []" by (simp add: join_Nil_iff)
    with j [OF False] show ?thesis by (simp add: appendMove_def)
  qed
  with Cons.IH [of "pre @ [m]"] Cons.prems show ?case by simp
qed simp

lemma isSolved_faces: "faces c = faces d \<Longrightarrow> isSolved c = isSolved d"
  by (simp add: isSolved_def faceArrays_def)

lemma solve_cases:
  assumes "wf_cube c"
  shows "\<exists>r. solve c = Inr r \<and>
     ((isSolved c \<and> r = [])
      \<or> (\<not> isSolved c \<and> (\<exists>d\<in>set [1..<21]. search (clone c) d [] None \<noteq> Inr None)
          \<and> (\<exists>c'. applyMoves r False (clone c) = Inr c' \<and> isSolved c'))
      \<or> (\<not> isSolved c \<and> (\<forall>d\<in>set [1..<21]. search (clone c) d [] None = Inr None)
          \<and> moveHistory c \<noteq> [] \<and> r = invertMoves (join '' '' (moveHistory c)))
      \<or> (\<not> isSolved c \<and> (\<forall>d\<in>set [1..<21]. search (clone c) d [] None = Inr None)
          \<and> moveHistory c = [] \<and> r = []))"
    (is "\<exists>r. solve c = Inr r \<and> (?A r \<or> ?B r \<or> ?C r \<or> ?D r)")
proof (cases "isSolved c")
  case True
  then have "solve c = Inr []" by (simp add: solve_def)
  moreover from True have "?A []" by simp
  ultimately show ?thesis by blast
next
  case False
  define ds :: "nat list" where "ds = [1..<21]"
  show ?thesis
  proof (cases "deepen c ds")
    case (Inl e)
    from deepen_Inl [OF Inl] obtain d where "search (clone c) d [] None = Inl e" by blast
    with search_no_error [of "clone c" d "[]" None e] show ?thesis by simp
  next
    case (Inr found)
    show ?thesis
    proof (cases found)
      case None
      with Inr have all: "\<forall>d\<in>set ds. search (clone c) d [] None = Inr None"
        by (simp add: deepen_None_iff)
      show ?thesis
      proof (cases "moveHistory c = []")
        case True
        with False Inr None have "solve c = Inr []"
          by (simp add: solve_def ds_def)
        moreover from False all True have "?D []" by (simp add: ds_def)
        ultimately show ?thesis by blast
      next
        case nonempty: False
        with False Inr None have "solve c = Inr (invertMoves (join '' '' (moveHistory c)))"
          by (simp add: solve_def ds_def)
        moreover from False all nonempty have "?C (invertMoves (join '' '' (moveHistory c)))"
          by (simp add: ds_def)
        ultimately show ?thesis by blast
      qed
    next
      case (Some result)
      with Inr deepen_Some [of c ds result] obtain d where d: "d \<in> set ds"
        and s: "search (clone c) d [] None = Inr (Some result)" by blast
      from search_sound [OF s] obtain ms fin where ms: "set ms \<subseteq> set solverMoves"
        and result: "result = foldl appendMove [] ms"
        and fin: "applyMoveList ms False c = Inr fin" "isSolved fin"
        by (auto simp: clone_id)
      from ms have wfm: "\<forall>m\<in>set ms. wellFormedMove m"
        by (auto intro: wellFormed_solverMoves)
      then have pieces: "\<forall>m\<in>set ms. m \<noteq> [] \<and> (\<forall>x\<in>set m. \<not> isWhiteSpace x)"
        by (blast dest: wellFormedMove_piece)
      then have "\<forall>m\<in>set ([] @ ms). m \<noteq> []" by simp
      from foldl_appendMove [OF this] result have j: "result = join '' '' ms" by simp
      from pieces have "\<forall>m\<in>set ms. m \<noteq> [] \<and> CHR '' '' \<notin> set m"
        by (auto simp: isWhiteSpace_def)
      from spaceTokens_join [OF this] wfm
      have "\<forall>m\<in>set (filter (\<lambda>m. m \<noteq> []) (splitOn CHR '' '' result)). wellFormedMove m"
        by (simp add: j)
      from optimizeSolution_turns [OF assms this, of False False] obtain c1 c2
        where c1: "applyMoves result False c = Inr c1"
          and c2: "applyMoves (optimizeSolution result) False c = Inr c2"
          and f: "faces c2 = faces c1" by blast
      from c1 fin(1) have "c1 = fin"
        by (simp add: applyMoves_def j moveList_join [OF pieces])
      with f fin(2) have "isSolved c2" by (simp add: isSolved_faces [of c2 fin])
      with c2 have ex: "\<exists>c'. applyMoves (optimizeSolution result) False (clone c) = Inr c'
          \<and> isSolved c'"
        by (simp add: clone_id)
      from s have "search (clone c) d [] None \<noteq> Inr None" by simp
      with d have "\<exists>d\<in>set [1..<21]. search (clone c) d [] None \<noteq> Inr None"
        unfolding ds_def by (rule bexI [rotated])
      with False ex have "?B (optimizeSolution result)" by blast
      moreover from False Inr Some have "solve c = Inr (optimizeSolution result)"
        by (simp add: solve_def ds_def)
      ultimately show ?thesis by blast
    qed
  qed
qed

lemma oddCube_unsolved: "wf_cube oddCube \<and> countColor ''W'' oddCube = 8 \<and> \<not> isSolved oddCube
    \<and> moveHistory oddCube = []"
  by (simp add: oddCube_def newCubeState_def wf_cube_def faceArrays_def countColor_def
        isSolved_def eval_nat_numeral)

lemma solve_oddCube: "solve oddCube = Inr []"
proof -
  from oddCube_unsolved have "search (clone oddCube) d [] None = Inr None" for d
    by (intro search_unsolvable [where x = "''W''"]) (simp_all add: clone_id)
  then have "deepen oddCube [1..<21] = Inr None"
    by (intro deepen_None) simp
  with oddCube_unsolved show ?thesis by (simp add: solve_def)
qed

text \<open>
  Claim C1, as amended. For every cube state with nine stickers on each face, \<open>solve\<close>
  returns a string, and one of four cases holds: the state is solved and the string is
  empty (returned before any search); or a depth bound from 1 to 20 succeeds and the
  string, applied to a clone of the state, gives a solved state; or no depth bound
  succeeds, the history is not empty and the string is the inverse of the history; or no
  depth bound succeeds, the history is empty and the string is empty.
\<close>

theorem solve_outcomes:
  assumes "wf_cube c"
  shows "\<exists>r. solve c = Inr r \<and>
     ((isSolved c \<and> r = [])
      \<or> (\<not> isSolved c \<and> (\<exists>d\<in>set [1..<21]. search (clone c) d [] None \<noteq> Inr None)
          \<and> (\<exists>c'. applyMoves r False (clone c) = Inr c' \<and> isSolved c'))
      \<or> (\<not> isSolved c \<and> (\<forall>d\<in>set [1..<21]. search (clone c) d [] None = Inr None)
          \<and> moveHistory c \<noteq> [] \<and> r = invertMoves (join '' '' (moveHistory c)))
      \<or> (\<not> isSolved c \<and> (\<forall>d\<in>set [1..<21]. search (clone c) d [] None = Inr None)
          \<and> moveHistory c = [] \<and> r = []))"
  using assms by (rule solve_cases)

theorem solve_outcomes_witness:
  "wf_cube (projr (applyMove ''U'' True newCubeState))
   \<and> \<not> isSolved (projr (applyMove ''U'' True newCubeState))
   \<and> search (clone (projr (applyMove ''U'' True newCubeState))) 1 [] None
       = Inr (Some (''U'' @ [APOSTROPHE]))
   \<and> solve (projr (applyMove ''U'' True newCubeState)) = Inr (''U'' @ [APOSTROPHE])
   \<and> (\<exists>c'. applyMoves (''U'' @ [APOSTROPHE]) False
               (clone (projr (applyMove ''U'' True newCubeState))) = Inr c' \<and> isSolved c')"
proof -
  define c where "c = projr (applyMove ''U'' True newCubeState)"
  have c: "c = \<lparr> faces = \<lparr> U = replicate 9 ''W'', D = replicate 9 ''Y'',
        F = [''R'', ''R'', ''R'', ''G'', ''G'', ''G'', ''G'', ''G'', ''G''],
        B = [''O'', ''O'', ''O'', ''B'', ''B'', ''B'', ''B'', ''B'', ''B''],
        L = [''G'', ''G'', ''G'', ''O'', ''O'', ''O'', ''O'', ''O'', ''O''],
        R = [''B'', ''B'', ''B'', ''R'', ''R'', ''R'', ''R'', ''R'', ''R''] \<rparr>,
      moveHistory = [''U''] \<rparr>"
    by (simp add: c_def applyMove_def moveTimes_def turn_defs newCubeState_def eval_nat_numeral)
  have wf: "wf_cube c" and ns: "\<not> isSolved c"
    by (simp_all add: c wf_cube_def isSolved_def faceArrays_def)
  have s: "search (clone c) 1 [] None = Inr (Some (''U'' @ [APOSTROPHE]))"
    unfolding c by code_simp
  have one: "(1::nat) \<in> set [1..<21]" by simp
  have "deepen c [1..<21] = Inr (Some (''U'' @ [APOSTROPHE]))"
    using s by (subst upt_rec) simp
  with ns have r: "solve c = Inr (''U'' @ [APOSTROPHE])"
    by (simp add: solve_def optimizeSolution_def splitOn_def optimizeLoop_unfold)
  from solve_outcomes [OF wf] obtain r' where r': "solve c = Inr r'"
    and cases: "(isSolved c \<and> r' = [])
      \<or> (\<not> isSolved c \<and> (\<exists>d\<in>set [1..<21]. search (clone c) d [] None \<noteq> Inr None)
          \<and> (\<exists>c'. applyMoves r' False (clone c) = Inr c' \<and> isSolved c'))
      \<or> (\<not> isSolved c \<and> (\<forall>d\<in>set [1..<21]. search (clone c) d [] None = Inr None)
          \<and> moveHistory c \<noteq> [] \<and> r' = invertMoves (join '' '' (moveHistory c)))
      \<or> (\<not> isSolved c \<and> (\<forall>d\<in>set [1..<21]. search (clone c) d [] None = Inr None)
          \<and> moveHistory c = [] \<and> r' = [])"
    by blast
  from r r' have "r' = ''U'' @ [APOSTROPHE]" by simp
  moreover from s one have "\<not> (\<forall>d\<in>set [1..<21]. search (clone c) d [] None = Inr None)"
    by (metis option.distinct(1) sum.inject(2))
  ultimately have "\<exists>c'. applyMoves (''U'' @ [APOSTROPHE]) False (clone c) = Inr c' \<and> isSolved c'"
    using cases ns by blast
  with wf ns s r show ?thesis unfolding c_def by blast
qed

text \<open>
  The claim as the specification states it has three cases only. It fails at a state that
  is not solved, that no move sequence solves (eight white stickers) and that carries no
  history: \<open>solve\<close> returns the empty string, which leaves the state unsolved.
\<close>

theorem solve_outcomes_counterexample:
  "solve oddCube = Inr [] \<and> \<not> isSolved oddCube \<and> moveHistory oddCube = []
   \<and> applyMoves [] False (clone oddCube) = Inr oddCube
   \<and> \<not> (\<exists>r. solve oddCube = Inr r \<and>
        ((\<exists>c'. applyMoves r False (clone oddCube) = Inr c' \<and> isSolved c')
         \<or> ((\<forall>d\<in>set [1..<21]. search (clone oddCube) d [] None = Inr None)
              \<and> moveHistory oddCube \<noteq> []
              \<and> r = invertMoves (join '' '' (moveHistory oddCube)))
         \<or> (isSolved oddCube \<and> r = [])))"
proof -
  have a: "applyMoves [] False (clone oddCube) = Inr oddCube"
    by (simp add: applyMoves_def moveList_def trim_def clone_id)
  with solve_oddCube oddCube_unsolved show ?thesis by simp
qed

section \<open>Properties of the scramble generator\<close>

lemma drawFace_accept:
  "\<not> rejected (faceNames ! randomIndex random k (length faceNames)) lastFace secondLastFace \<Longrightarrow>
   drawFace random lastFace secondLastFace k
     = Some (faceNames ! randomIndex random k (length faceNames), Suc k)"
  by (subst drawFace.simps) (auto simp: rejected_def Let_def)

lemma drawFace_reject:
  "rejected (faceNames ! randomIndex random k (length faceNames)) lastFace secondLastFace \<Longrightarrow>
   drawFace random lastFace secondLastFace k = drawFace random lastFace secondLastFace (Suc k)"
  by (subst drawFace.simps) (auto simp: rejected_def Let_def)

lemma length_faceNames: "length faceNames = 6"
  by (simp add: faceNames_def)

lemma length_modifiers: "length modifiers = 3"
  by (simp add: modifiers_def)

lemma drawFace_Some_raw:
  "drawFace random lastFace secondLastFace k = Some y \<Longrightarrow>
   \<forall>k. randomIndex random k (length faceNames) < length faceNames
           \<and> randomIndex random k (length modifiers) < length modifiers \<Longrightarrow>
   fst y \<in> set faceNames \<and> \<not> rejected (fst y) lastFace secondLastFace"
proof (induction rule: drawFace.raw_induct [rotated 1, consumes 1])
  case (1 drawFace' random lastFace secondLastFace k y)
  let ?face = "faceNames ! randomIndex random k (length faceNames)"
  show ?case
  proof (cases "rejected ?face lastFace secondLastFace")
    case True
    with 1(2) have "drawFace' random lastFace secondLastFace (Suc k) = Some y"
      by (auto simp: rejected_def Let_def)
    from 1(1) [OF this 1(3)] show ?thesis .
  next
    case False
    with 1(2) have "fst y = ?face" by (auto simp: rejected_def Let_def)
    moreover from 1(3)
    have "?face \<in> set faceNames" by (intro nth_mem) simp
    ultimately show ?thesis using False by simp
  qed
qed

lemma drawFace_Some:
  assumes "drawFace random lastFace secondLastFace k = Some (face, k')"
    and "\<forall>k. randomIndex random k (length faceNames) < length faceNames
           \<and> randomIndex random k (length modifiers) < length modifiers"
  shows "face \<in> set faceNames \<and> \<not> rejected face lastFace secondLastFace"
  using drawFace_Some_raw [OF assms] by simp

lemma drawFace_returns:
  assumes "k \<le> j"
    and "\<not> rejected (faceNames ! randomIndex random j (length faceNames)) lastFace secondLastFace"
  shows "\<exists>y. drawFace random lastFace secondLastFace k = Some y"
  using assms
proof (induction "j - k" arbitrary: k)
  case 0
  then have "k = j" by simp
  with 0 drawFace_accept show ?case by blast
next
  case (Suc n)
  show ?case
  proof (cases "rejected (faceNames ! randomIndex random k (length faceNames)) lastFace secondLastFace")
    case True
    from Suc have "n = j - Suc k" "Suc k \<le> j" by simp_all
    from Suc.hyps(1) [OF this Suc.prems(2)] drawFace_reject [OF True] show ?thesis by simp
  next
    case False
    with drawFace_accept show ?thesis by blast
  qed
qed

lemma drawFace_stuck_raw:
  "drawFace random lastFace secondLastFace k = Some y \<Longrightarrow>
   random = stuckRandom \<Longrightarrow> lastFace = ''U'' \<Longrightarrow> False"
proof (induction rule: drawFace.raw_induct [rotated 1, consumes 1])
  case (1 drawFace' random lastFace secondLastFace k y)
  from 1(3,4) have "faceNames ! randomIndex random k (length faceNames) = lastFace"
    by (simp add: randomIndex_def stuckRandom_def faceNames_def)
  with 1(2) have "drawFace' random lastFace secondLastFace (Suc k) = Some y"
    by (simp add: Let_def)
  from 1(1) [OF this 1(3,4)] show ?case .
qed

lemma drawFace_stuck: "drawFace stuckRandom ''U'' secondLastFace k = None"
  using drawFace_stuck_raw [of stuckRandom "''U''" secondLastFace k]
  by (cases "drawFace stuckRandom ''U'' secondLastFace k") auto

lemma faceNames_token:
  assumes "face \<in> set faceNames" and "modifier \<in> set modifiers"
  shows "wellFormedMove (face @ modifier) \<and> take 1 (face @ modifier) = face"
  using assms by (auto simp: faceNames_def modifiers_def wellFormedMove_def isFace_def)

lemma scrambleLoop_Some:
  assumes "\<forall>k. randomIndex random k (length faceNames) < length faceNames
           \<and> randomIndex random k (length modifiers) < length modifiers"
  shows "scrambleLoop n random acc lastFace secondLastFace k = Some res \<Longrightarrow>
         \<exists>new. res = acc @ new \<and> length new = n \<and> scrambleOk lastFace secondLastFace new"
proof (induction n arbitrary: acc lastFace secondLastFace k)
  case 0
  then show ?case by simp
next
  case (Suc n)
  from Suc.prems obtain face k' where d: "drawFace random lastFace secondLastFace k = Some (face, k')"
    and r: "scrambleLoop n random
              (acc @ [face @ modifiers ! randomIndex random k' (length modifiers)])
              face lastFace (Suc k') = Some res"
    by (auto simp: Let_def split: option.splits)
  let ?t = "face @ modifiers ! randomIndex random k' (length modifiers)"
  from drawFace_Some [OF d assms]
  have f: "face \<in> set faceNames" "\<not> rejected face lastFace secondLastFace" by simp_all
  from assms
  have "modifiers ! randomIndex random k' (length modifiers) \<in> set modifiers"
    by (intro nth_mem) simp
  from faceNames_token [OF f(1) this] have t: "wellFormedMove ?t" "take 1 ?t = face" by simp_all
  from Suc.IH [OF r] obtain new where "res = (acc @ [?t]) @ new" "length new = n"
    "scrambleOk face lastFace new" by blast
  with t f(2) show ?case
    by (intro exI [of _ "?t # new"]) simp
qed

lemma accepted_exists:
  "\<exists>face\<in>set faceNames. \<not> rejected face lastFace secondLastFace"
proof -
  have "''U'' \<noteq> ''D''" "''U'' \<noteq> ''F''" "''D'' \<noteq> ''F''" by simp_all
  then have "\<exists>face\<in>{''U'', ''D'', ''F''}. face \<noteq> lastFace \<and> face \<noteq> secondLastFace"
    by (metis insertI1 insertI2)
  then show ?thesis by (auto simp: faceNames_def rejected_def)
qed

lemma scrambleLoop_returns:
  assumes "\<forall>k. \<forall>face\<in>set faceNames.
      \<exists>j\<ge>k. faceNames ! randomIndex random j (length faceNames) = face"
  shows "\<exists>res. scrambleLoop n random acc lastFace secondLastFace k = Some res"
proof (induction n arbitrary: acc lastFace secondLastFace k)
  case 0
  show ?case by simp
next
  case (Suc n)
  from accepted_exists [of lastFace secondLastFace] obtain face
    where "face \<in> set faceNames" "\<not> rejected face lastFace secondLastFace" by blast
  with assms obtain j where "k \<le> j"
    "\<not> rejected (faceNames ! randomIndex random j (length faceNames)) lastFace secondLastFace"
    by metis
  from drawFace_returns [OF this] obtain face' k'
    where "drawFace random lastFace secondLastFace k = Some (face', k')" by force
  with Suc.IH show ?case by (simp add: Let_def)
qed

lemma scrambleOk_nth:
  "scrambleOk l s ts \<Longrightarrow>
   (\<forall>i<length ts. wellFormedMove (ts ! i))
   \<and> (\<forall>i. Suc i < length ts \<longrightarrow> take 1 (ts ! Suc i) \<noteq> take 1 (ts ! i))
   \<and> (\<forall>i. Suc (Suc i) < length ts \<longrightarrow>
          isOppositeFace (take 1 (ts ! Suc i)) (take 1 (ts ! i)) \<longrightarrow>
          take 1 (ts ! Suc (Suc i)) \<noteq> take 1 (ts ! i))"
proof (induction ts arbitrary: l s)
  case (Cons t ts)
  then have ok: "scrambleOk (take 1 t) l ts" and t: "wellFormedMove t" by simp_all
  note ih = Cons.IH [OF ok]
  have a: "\<forall>i<length (t # ts). wellFormedMove ((t # ts) ! i)"
    using ih t by (auto simp: nth_Cons split: nat.splits)
  have b: "take 1 ((t # ts) ! Suc i) \<noteq> take 1 ((t # ts) ! i)" if "Suc i < length (t # ts)" for i
  proof (cases i)
    case 0
    with that ok show ?thesis by (cases ts) (auto simp: rejected_def)
  next
    case (Suc i')
    with that ih show ?thesis by simp
  qed
  have c: "take 1 ((t # ts) ! Suc (Suc i)) \<noteq> take 1 ((t # ts) ! i)"
    if "Suc (Suc i) < length (t # ts)"
      "isOppositeFace (take 1 ((t # ts) ! Suc i)) (take 1 ((t # ts) ! i))" for i
  proof (cases i)
    case 0
    with that obtain u v vs where "ts = u # v # vs" by (cases ts; cases "tl ts") auto
    with 0 that ok show ?thesis by (auto simp: rejected_def)
  next
    case (Suc i')
    with that ih show ?thesis by simp
  qed
  from a b c show ?case by blast
qed simp

text \<open>
  Claim C8, as amended. Let every draw be an index of its array (which the arithmetic of
  doubles gives for \<open>Math.random()\<close> in \<open>[0, 1)\<close>). Whenever \<open>generateScramble(n)\<close>
  returns, the result is the space-joined string of exactly \<open>n\<close> tokens, each a face
  letter of \<open>U D F B L R\<close> with no modifier, an apostrophe or a 2; no token has the face
  of the token before it, and no token has the face two positions back when that face is
  the opposite of the face before it. It returns for every source on which each face
  keeps being drawn.
\<close>

theorem generateScramble_shape:
  assumes "\<forall>k. randomIndex random k (length faceNames) < length faceNames
           \<and> randomIndex random k (length modifiers) < length modifiers"
  shows "(\<forall>s. generateScramble n random = Some s \<longrightarrow>
            (\<exists>toks. s = join '' '' toks \<and> moveList s = toks \<and> length toks = n
               \<and> (\<forall>i<n. wellFormedMove (toks ! i))
               \<and> (\<forall>i. Suc i < n \<longrightarrow> take 1 (toks ! Suc i) \<noteq> take 1 (toks ! i))
               \<and> (\<forall>i. Suc (Suc i) < n \<longrightarrow>
                      isOppositeFace (take 1 (toks ! Suc i)) (take 1 (toks ! i)) \<longrightarrow>
                      take 1 (toks ! Suc (Suc i)) \<noteq> take 1 (toks ! i))))
       \<and> ((\<forall>k. \<forall>face\<in>set faceNames.
              \<exists>j\<ge>k. faceNames ! randomIndex random j (length faceNames) = face)
            \<longrightarrow> (\<exists>s. generateScramble n random = Some s))"
proof (intro conjI allI impI)
  fix s assume "generateScramble n random = Some s"
  then obtain toks where r: "scrambleLoop n random [] [] [] 0 = Some toks"
    and s: "s = join '' '' toks"
    by (auto simp: generateScramble_def)
  from scrambleLoop_Some [OF assms r] have n: "length toks = n" and ok: "scrambleOk [] [] toks"
    by auto
  note nth = scrambleOk_nth [OF ok]
  from nth have "\<forall>t\<in>set toks. wellFormedMove t"
    by (auto simp: in_set_conv_nth)
  then have "\<forall>t\<in>set toks. t \<noteq> [] \<and> (\<forall>x\<in>set t. \<not> isWhiteSpace x)"
    by (blast dest: wellFormedMove_piece)
  from moveList_join [OF this] have "moveList s = toks" by (simp add: s)
  with s n nth show "\<exists>toks. s = join '' '' toks \<and> moveList s = toks \<and> length toks = n
               \<and> (\<forall>i<n. wellFormedMove (toks ! i))
               \<and> (\<forall>i. Suc i < n \<longrightarrow> take 1 (toks ! Suc i) \<noteq> take 1 (toks ! i))
               \<and> (\<forall>i. Suc (Suc i) < n \<longrightarrow>
                      isOppositeFace (take 1 (toks ! Suc i)) (take 1 (toks ! i)) \<longrightarrow>
                      take 1 (toks ! Suc (Suc i)) \<noteq> take 1 (toks ! i))"
    by blast
next
  assume "\<forall>k. \<forall>face\<in>set faceNames.
      \<exists>j\<ge>k. faceNames ! randomIndex random j (length faceNames) = face"
  from scrambleLoop_returns [OF this, of n "[]" "[]" "[]" 0]
  show "\<exists>s. generateScramble n random = Some s"
    by (auto simp: generateScramble_def)
qed

theorem generateScramble_shape_witness:
  "generateScramble 2 cyclicRandom = Some (''U' F'')
   \<and> moveList (''U' F'') = [''U'' @ [APOSTROPHE], ''F'']
   \<and> (\<exists>s. generateScramble 20 cyclicRandom = Some s)"
proof -
  have valid: "\<forall>k. randomIndex cyclicRandom k (length faceNames) < length faceNames
           \<and> randomIndex cyclicRandom k (length modifiers) < length modifiers"
    by (simp add: randomIndex_def cyclicRandom_def length_faceNames length_modifiers)
  have idx: "randomIndex cyclicRandom j 6 = j mod 6" for j
    by (simp add: randomIndex_def cyclicRandom_def)
  have fair: "\<forall>k. \<forall>face\<in>set faceNames.
      \<exists>j\<ge>k. faceNames ! randomIndex cyclicRandom j (length faceNames) = face"
  proof (intro allI ballI)
    fix k face assume "face \<in> set faceNames"
    then obtain i where i: "i < 6" "faceNames ! i = face"
      by (auto simp: in_set_conv_nth length_faceNames)
    moreover from i have "(6 * k + i) mod 6 = i" by simp
    ultimately have "faceNames ! randomIndex cyclicRandom (6 * k + i) (length faceNames) = face"
      by (simp only: idx length_faceNames)
    moreover have "k \<le> 6 * k + i" by simp
    ultimately show "\<exists>j\<ge>k. faceNames ! randomIndex cyclicRandom j (length faceNames) = face"
      by blast
  qed
  have f0: "faceNames ! randomIndex cyclicRandom 0 (length faceNames) = ''U''"
    and f2: "faceNames ! randomIndex cyclicRandom (Suc (Suc 0)) (length faceNames) = ''F''"
    by (simp_all only: length_faceNames idx) (simp_all add: faceNames_def)
  have m1: "modifiers ! randomIndex cyclicRandom (Suc 0) (length modifiers) = [APOSTROPHE]"
    and m3: "modifiers ! randomIndex cyclicRandom (Suc (Suc (Suc 0))) (length modifiers) = []"
    by (simp_all add: randomIndex_def cyclicRandom_def modifiers_def)
  have d0: "drawFace cyclicRandom [] [] 0 = Some (''U'', Suc 0)"
    using drawFace_accept [of cyclicRandom 0 "[]" "[]"] by (simp add: f0 rejected_def)
  have d2: "drawFace cyclicRandom ''U'' [] (Suc (Suc 0)) = Some (''F'', Suc (Suc (Suc 0)))"
    using drawFace_accept [of cyclicRandom "Suc (Suc 0)" "''U''" "[]"]
    by (simp add: f2 rejected_def)
  have "scrambleLoop (Suc (Suc 0)) cyclicRandom [] [] [] 0 = Some [''U'' @ [APOSTROPHE], ''F'']"
    by (simp add: d0 d2 m1 m3)
  then have g: "generateScramble 2 cyclicRandom = Some (''U' F'')"
    by (simp add: generateScramble_def numeral_2_eq_2)
  from generateScramble_shape [OF valid, of 2] g
  have "moveList (''U' F'') = [''U'' @ [APOSTROPHE], ''F'']"
    by (simp add: moveList_def trim_def isWhiteSpace_def)
  moreover from generateScramble_shape [OF valid, of 20] fair
  have "\<exists>s. generateScramble 20 cyclicRandom = Some s" by blast
  ultimately show ?thesis using g by simp
qed

text \<open>
  The claim as the specification states it fails on the source that returns 0 for ever:
  the first round takes \<open>U\<close>, the second draws \<open>U\<close> again and again, and the call never
  returns.
\<close>

theorem generateScramble_counterexample:
  "generateScramble 2 stuckRandom = None"
proof -
  have "faceNames ! randomIndex stuckRandom 0 (length faceNames) = ''U''"
    by (simp add: randomIndex_def stuckRandom_def faceNames_def)
  with drawFace_accept [of stuckRandom 0 "[]" "[]"]
  have "drawFace stuckRandom [] [] 0 = Some (''U'', Suc 0)"
    by (simp add: rejected_def)
  then have "scrambleLoop (Suc (Suc 0)) stuckRandom [] [] [] 0 = None"
    by (simp add: drawFace_stuck)
  then show ?thesis
    by (simp add: generateScramble_def numeral_2_eq_2)
qed

section \<open>What a call leaves unchanged in the store\<close>

lemma arraysFrom_refl: "arraysFrom n st st"
  by (simp add: arraysFrom_def)

lemma arraysFrom_trans: "arraysFrom n st st1 \<Longrightarrow> arraysFrom n st1 st2 \<Longrightarrow> arraysFrom n st st2"
  by (simp add: arraysFrom_def)

lemma arraysFrom_unchanged: "arraysFrom n st st' \<Longrightarrow> unchangedBelow n st st'"
  by (simp add: arraysFrom_def unchangedBelow_def)

lemma unchangedBelow_refl: "unchangedBelow n st st"
  by (simp add: unchangedBelow_def)

lemma unchangedBelow_trans:
  "unchangedBelow n st st1 \<Longrightarrow> unchangedBelow n st1 st2 \<Longrightarrow> unchangedBelow n st st2"
  by (auto simp: unchangedBelow_def)

lemma unchangedBelow_mono: "m \<le> n \<Longrightarrow> unchangedBelow n st st' \<Longrightarrow> unchangedBelow m st st'"
  by (auto simp: unchangedBelow_def)

lemma unchangedBelow_next: "unchangedBelow n st st' \<Longrightarrow> n \<le> nextAddr st \<Longrightarrow> n \<le> nextAddr st'"
  by (auto simp: unchangedBelow_def)

lemma freshFrom_mono: "m \<le> n \<Longrightarrow> freshFrom n this st \<Longrightarrow> freshFrom m this st"
  by (auto simp: freshFrom_def list_all_iff)

lemma writeElem_from: "n \<le> a \<Longrightarrow> arraysFrom n st (writeElem a i v st)"
  by (simp add: arraysFrom_def writeElem_def)

lemma copyElems_from:
  "\<forall>x\<in>set xs. n \<le> fst x \<Longrightarrow> arraysFrom n st (copyElems xs st)"
proof (induction xs arbitrary: st)
  case (Cons x xs)
  obtain a i b j where x: "x = (a, i, b, j)" by (cases x)
  with Cons.prems have "n \<le> a" "\<forall>x\<in>set xs. n \<le> fst x" by simp_all
  from writeElem_from [OF this(1)] Cons.IH [OF this(2)] show ?case
    unfolding x copyElems.simps by (rule arraysFrom_trans)
qed (simp add: arraysFrom_refl)

lemma writeElems_from:
  "\<forall>x\<in>set xs. n \<le> fst x \<Longrightarrow> arraysFrom n st (writeElems xs st)"
proof (induction xs arbitrary: st)
  case (Cons x xs)
  obtain a i v where x: "x = (a, i, v)" by (cases x)
  with Cons.prems have "n \<le> a" "\<forall>x\<in>set xs. n \<le> fst x" by simp_all
  from writeElem_from [OF this(1)] Cons.IH [OF this(2)] show ?case
    unfolding x writeElems.simps by (rule arraysFrom_trans)
qed (simp add: arraysFrom_refl)

lemma arraysFrom_addrs: "arraysFrom n st st' \<Longrightarrow> cubeAddrs this st' = cubeAddrs this st"
  by (simp add: arraysFrom_def cubeAddrs_def facesOf_def)

lemma arraysFrom_fresh: "arraysFrom n st st' \<Longrightarrow> freshFrom m this st \<Longrightarrow> freshFrom m this st'"
  by (simp add: freshFrom_def arraysFrom_addrs)

lemma getRef_fresh:
  "freshFrom n this st \<Longrightarrow> getRef face (facesOf this st) = Some a \<Longrightarrow> n \<le> a"
  by (auto simp: freshFrom_def cubeAddrs_def getRef_def Let_def split: if_splits)

lemma arraysFrom_writeElem:
  "arraysFrom n st st1 \<Longrightarrow> n \<le> a \<Longrightarrow> arraysFrom n st (writeElem a i v st1)"
  using writeElem_from [of n a st1 i v] by (rule arraysFrom_trans [rotated]) simp

lemma rotateFaceClockwiseRef_from:
  assumes "freshFrom n this st" and "rotateFaceClockwiseRef face this st = Inr st'"
  shows "arraysFrom n st st'"
proof -
  from assms(2) obtain a where a: "getRef face (facesOf this st) = Some a"
    by (auto simp: rotateFaceClockwiseRef_def split: option.splits)
  from getRef_fresh [OF assms(1) a] have n: "n \<le> a" .
  from assms(2) a n show ?thesis
    by (auto simp: rotateFaceClockwiseRef_def Let_def
          intro!: arraysFrom_writeElem arraysFrom_refl)
qed

lemma cycleEdgesRef_from:
  assumes "n \<le> refU fo" "n \<le> refD fo" "n \<le> refF fo" "n \<le> refB fo" "n \<le> refL fo"
    "n \<le> refR fo"
  shows "arraysFrom n st (cycleEdgesRef face fo st)"
  using assms
  by (auto simp: cycleEdgesRef_def Let_def intro!: arraysFrom_writeElem arraysFrom_refl)

lemma applySingleMoveRef_from:
  assumes "freshFrom n this st" and "applySingleMoveRef face this st = Inr st'"
  shows "arraysFrom n st st'"
proof -
  from assms(2) obtain st1 where r: "rotateFaceClockwiseRef face this st = Inr st1"
    and s: "st' = cycleEdgesRef face (facesOf this st1) st1"
    by (auto simp: applySingleMoveRef_def split: sum.splits)
  from rotateFaceClockwiseRef_from [OF assms(1) r] have a: "arraysFrom n st st1" .
  from arraysFrom_fresh [OF a assms(1)] have "freshFrom n this st1" .
  then have "arraysFrom n st1 (cycleEdgesRef face (facesOf this st1) st1)"
    by (intro cycleEdgesRef_from) (simp_all add: freshFrom_def cubeAddrs_def Let_def)
  with a s show ?thesis by (auto intro: arraysFrom_trans)
qed

lemma repeatSingleMoveRef_from:
  "freshFrom n this st \<Longrightarrow> repeatSingleMoveRef k face this st = Inr st' \<Longrightarrow>
   arraysFrom n st st'"
proof (induction k arbitrary: st)
  case 0
  then show ?case by (simp add: arraysFrom_refl)
next
  case (Suc k)
  from Suc.prems(2) obtain st1 where a: "applySingleMoveRef face this st = Inr st1"
    and r: "repeatSingleMoveRef k face this st1 = Inr st'"
    by (auto split: sum.splits)
  from applySingleMoveRef_from [OF Suc.prems(1) a] have f: "arraysFrom n st st1" .
  from Suc.IH [OF arraysFrom_fresh [OF f Suc.prems(1)] r] f show ?case
    by (auto intro: arraysFrom_trans)
qed

lemma applyMoveRef_from:
  assumes "freshFrom n this st" and "applyMoveRef move recordHistory this st = Inr st'"
  shows "arraysFrom n st st'"
proof (cases move)
  case Nil
  with assms(2) show ?thesis by (simp add: applyMoveRef_def)
next
  case (Cons face modifier)
  with assms(2) obtain st1 where r: "repeatSingleMoveRef (moveTimes modifier) face this st = Inr st1"
    and s: "st' = (if recordHistory
                    then (let h = moveHistoryRef (cubeObjects st1 this)
                          in st1\<lparr>arrays := (arrays st1)(h := arrays st1 h @ [move])\<rparr>)
                    else st1)"
    by (auto simp: applyMoveRef_def split: sum.splits)
  from repeatSingleMoveRef_from [OF assms(1) r] have a: "arraysFrom n st st1" .
  from arraysFrom_fresh [OF a assms(1)] have "n \<le> moveHistoryRef (cubeObjects st1 this)"
    by (simp add: freshFrom_def cubeAddrs_def Let_def)
  then have "arraysFrom n st1 st'"
    by (simp add: s arraysFrom_def Let_def)
  with a show ?thesis by (auto intro: arraysFrom_trans)
qed

lemma construct_fresh:
  "construct st = (this, st') \<Longrightarrow>
   unchangedBelow (nextAddr st) st st' \<and> freshFrom (nextAddr st) this st'"
  by (auto simp: construct_def newArray_def newFaceObject_def newCubeObject_def Let_def
        unchangedBelow_def freshFrom_def cubeAddrs_def facesOf_def)

lemma copyFace_keeps:
  assumes "m \<le> nextAddr st" and "freshFrom m newState st"
  shows "unchangedBelow m st (copyFace this newState face st)
       \<and> freshFrom m newState (copyFace this newState face st)"
proof (cases "getRef face (facesOf this st)")
  case None
  with assms show ?thesis by (simp add: copyFace_def unchangedBelow_refl)
next
  case (Some a)
  from assms(2) have fo: "m \<le> facesRef (cubeObjects st newState)"
    and refs: "m \<le> newState" "m \<le> moveHistoryRef (cubeObjects st newState)"
      "m \<le> refU (facesOf newState st)" "m \<le> refD (facesOf newState st)"
      "m \<le> refF (facesOf newState st)" "m \<le> refB (facesOf newState st)"
      "m \<le> refL (facesOf newState st)" "m \<le> refR (facesOf newState st)"
    by (simp_all add: freshFrom_def cubeAddrs_def Let_def)
  have u: "unchangedBelow m st (copyFace this newState face st)"
    using assms(1) fo by (simp add: copyFace_def Some newArray_def unchangedBelow_def Let_def)
  have "freshFrom m newState (copyFace this newState face st)"
    using assms(1) fo refs
    by (simp add: copyFace_def Some [unfolded facesOf_def] newArray_def freshFrom_def
          cubeAddrs_def facesOf_def setRef_def Let_def)
  with u show ?thesis by simp
qed

lemma copyFaces_keep:
  "m \<le> nextAddr st \<Longrightarrow> freshFrom m newState st \<Longrightarrow>
   unchangedBelow m st (foldl (\<lambda>st face. copyFace this newState face st) st fs)
   \<and> freshFrom m newState (foldl (\<lambda>st face. copyFace this newState face st) st fs)"
proof (induction fs arbitrary: st)
  case Nil
  then show ?case by (simp add: unchangedBelow_refl)
next
  case (Cons f fs)
  from copyFace_keeps [OF Cons.prems, of this f]
  have k: "unchangedBelow m st (copyFace this newState f st)"
    "freshFrom m newState (copyFace this newState f st)" by simp_all
  from unchangedBelow_next [OF k(1) Cons.prems(1)]
  have "m \<le> nextAddr (copyFace this newState f st)" .
  from Cons.IH [OF this k(2)] k(1) show ?case
    by (auto intro: unchangedBelow_trans)
qed

lemma cloneRef_fresh:
  assumes "cloneRef this st = (newState, st')"
  shows "unchangedBelow (nextAddr st) st st' \<and> freshFrom (nextAddr st) newState st'"
proof -
  let ?n = "nextAddr st"
  obtain new st1 where c: "construct st = (new, st1)" by (cases "construct st")
  define st2 where "st2 = foldl (\<lambda>st face. copyFace this new face st) st1 ''UDFBLR''"
  obtain h st3 where h: "newArray (arrays st2 (moveHistoryRef (cubeObjects st2 this))) st2 = (h, st3)"
    by (cases "newArray (arrays st2 (moveHistoryRef (cubeObjects st2 this))) st2")
  from assms c h have new: "newState = new"
    and st': "st' = st3\<lparr>cubeObjects :=
                (cubeObjects st3)(new := (cubeObjects st3 new)\<lparr>moveHistoryRef := h\<rparr>)\<rparr>"
    by (auto simp: cloneRef_def st2_def [symmetric] Let_def simp del: foldl_Cons foldl_Nil)
  from construct_fresh [OF c] have u1: "unchangedBelow ?n st st1" and f1: "freshFrom ?n new st1"
    by simp_all
  from unchangedBelow_next [OF u1] have n1: "?n \<le> nextAddr st1" by simp
  from copyFaces_keep [OF n1 f1, of this "''UDFBLR''"]
  have u2: "unchangedBelow ?n st1 st2" and f2: "freshFrom ?n new st2"
    by (simp_all add: st2_def)
  from unchangedBelow_next [OF u2 n1] have n2: "?n \<le> nextAddr st2" .
  from h have h': "h = nextAddr st2"
    "st3 = st2\<lparr>arrays := (arrays st2)(nextAddr st2 := arrays st2 (moveHistoryRef (cubeObjects st2 this))),
               nextAddr := Suc (nextAddr st2)\<rparr>"
    by (auto simp: newArray_def)
  from f2 have refs: "?n \<le> new" "?n \<le> facesRef (cubeObjects st2 new)"
      "?n \<le> refU (facesOf new st2)" "?n \<le> refD (facesOf new st2)"
      "?n \<le> refF (facesOf new st2)" "?n \<le> refB (facesOf new st2)"
      "?n \<le> refL (facesOf new st2)" "?n \<le> refR (facesOf new st2)"
    by (simp_all add: freshFrom_def cubeAddrs_def Let_def)
  have u3: "unchangedBelow ?n st2 st'"
    using n2 refs(1) by (simp add: st' h' unchangedBelow_def)
  have f3: "freshFrom ?n new st'"
    using n2 refs by (simp add: st' h' freshFrom_def cubeAddrs_def facesOf_def Let_def)
  from u1 u2 u3 f3 new show ?thesis
    by (auto intro: unchangedBelow_trans)
qed

lemma firstResultRef_unchanged:
  assumes "\<And>m st0 r st1. n \<le> nextAddr st0 \<Longrightarrow> body m st0 = (r, st1) \<Longrightarrow> unchangedBelow n st0 st1"
  shows "n \<le> nextAddr st \<Longrightarrow> firstResultRef body ms st = (r, st') \<Longrightarrow> unchangedBelow n st st'"
proof (induction ms arbitrary: st)
  case Nil
  then show ?case by (simp add: unchangedBelow_refl)
next
  case (Cons m ms)
  obtain r1 st1 where b: "body m st = (r1, st1)" by (cases "body m st")
  from assms [OF Cons.prems(1) b] have u: "unchangedBelow n st st1" .
  show ?case
  proof (cases "r1 = Inr None")
    case True
    with Cons.prems(2) b have "firstResultRef body ms st1 = (r, st')" by simp
    from Cons.IH [OF unchangedBelow_next [OF u Cons.prems(1)] this] u show ?thesis
      by (rule unchangedBelow_trans [rotated])
  next
    case False
    with Cons.prems(2) b have "st' = st1"
      by (auto split: sum.splits option.splits)
    with u show ?thesis by simp
  qed
qed

lemma searchRef_unchanged:
  "n \<le> nextAddr st \<Longrightarrow> searchRef state d sol lastMove st = (r, st') \<Longrightarrow>
   unchangedBelow n st st'"
proof (induction d arbitrary: state sol lastMove st r st')
  case 0
  then show ?case by (auto simp: unchangedBelow_refl)
next
  case (Suc d)
  show ?case
  proof (cases "estimateMovesRef state st > Suc d")
    case True
    with Suc.prems show ?thesis by (auto simp: unchangedBelow_refl)
  next
    case False
    let ?body = "\<lambda>move st0.
           if (case lastMove of None \<Rightarrow> False
               | Some l \<Rightarrow> l \<noteq> [] \<and> isRedundantMove move l) then (Inr None, st0)
           else
             (case cloneRef state st0 of
                (newState, st1) \<Rightarrow>
                  (case applyMoveRef move False newState st1 of
                     Inl e \<Rightarrow> (Inl e, st1)
                   | Inr st2 \<Rightarrow>
                       searchRef newState d (appendMove sol move) (Some move) st2))"
    have body: "unchangedBelow n st0 st1"
      if n: "n \<le> nextAddr st0" and b: "?body m st0 = (r1, st1)" for m st0 r1 st1
    proof (cases "case lastMove of None \<Rightarrow> False | Some l \<Rightarrow> l \<noteq> [] \<and> isRedundantMove m l")
      case True
      with b show ?thesis by (simp add: unchangedBelow_refl)
    next
      case False
      obtain new sc where c: "cloneRef state st0 = (new, sc)" by (cases "cloneRef state st0")
      from cloneRef_fresh [OF c] n have uc: "unchangedBelow n st0 sc" and fc: "freshFrom n new sc"
        by (auto intro: unchangedBelow_mono freshFrom_mono)
      show ?thesis
      proof (cases "applyMoveRef m False new sc")
        case (Inl e)
        with b False c uc show ?thesis by simp
      next
        case (Inr sm)
        from applyMoveRef_from [OF fc Inr] have um: "unchangedBelow n sc sm"
          by (rule arraysFrom_unchanged)
        from b False c Inr
        have "searchRef new d (appendMove sol m) (Some m) sm = (r1, st1)" by simp
        from Suc.IH [OF _ this] unchangedBelow_next [OF um unchangedBelow_next [OF uc n]]
        have "unchangedBelow n sm st1" by simp
        with uc um show ?thesis by (blast intro: unchangedBelow_trans)
      qed
    qed
    from Suc.prems(2) False have "firstResultRef ?body solverMoves st = (r, st')" by simp
    from firstResultRef_unchanged [of n ?body, OF body Suc.prems(1) this] show ?thesis .
  qed
qed

lemma deepenRef_unchanged:
  "n \<le> nextAddr st \<Longrightarrow> deepenRef cubeState ds st = (r, st') \<Longrightarrow> unchangedBelow n st st'"
proof (induction ds arbitrary: st)
  case Nil
  then show ?case by (simp add: unchangedBelow_refl)
next
  case (Cons d ds)
  obtain new sc where c: "cloneRef cubeState st = (new, sc)" by (cases "cloneRef cubeState st")
  obtain r1 s1 where s: "searchRef new d [] None sc = (r1, s1)"
    by (cases "searchRef new d [] None sc")
  from cloneRef_fresh [OF c] Cons.prems(1) have uc: "unchangedBelow n st sc"
    by (auto intro: unchangedBelow_mono)
  from unchangedBelow_next [OF uc Cons.prems(1)] have nc: "n \<le> nextAddr sc" .
  from searchRef_unchanged [OF nc s] have us: "unchangedBelow n sc s1" .
  from uc us have u1: "unchangedBelow n st s1" by (rule unchangedBelow_trans)
  show ?case
  proof (cases "r1 = Inr None")
    case True
    with Cons.prems(2) c s have "deepenRef cubeState ds s1 = (r, st')" by simp
    from Cons.IH [OF unchangedBelow_next [OF u1 Cons.prems(1)] this] u1 show ?thesis
      by (rule unchangedBelow_trans [rotated])
  next
    case False
    with Cons.prems(2) c s have "st' = s1"
      by (auto split: sum.splits option.splits)
    with u1 show ?thesis by simp
  qed
qed

lemma solveRef_unchanged:
  assumes "solveRef cubeState st = (r, st')"
  shows "unchangedBelow (nextAddr st) st st'"
proof (cases "isSolvedRef cubeState st")
  case True
  with assms show ?thesis by (simp add: solveRef_def unchangedBelow_refl)
next
  case False
  obtain r1 s1 where d: "deepenRef cubeState [1..<21] st = (r1, s1)"
    by (cases "deepenRef cubeState [1..<21] st")
  from deepenRef_unchanged [OF le_refl d] have "unchangedBelow (nextAddr st) st s1" .
  moreover from assms False d have "st' = s1"
    by (auto simp: solveRef_def Let_def split: sum.splits option.splits if_splits)
  ultimately show ?thesis by simp
qed

lemma unchangedBelow_value:
  assumes "unchangedBelow n st st'" and "allocatedBelow n this st"
  shows "cubeAddrs this st' = cubeAddrs this st \<and> cubeValue st' this = cubeValue st this"
  using assms
  by (simp add: unchangedBelow_def allocatedBelow_def cubeAddrs_def cubeValue_def facesOf_def
        Let_def)

text \<open>
  Claim C9. A call \<open>solve(c)\<close> changes no array and no object that existed before the
  call; so for a cube \<open>c\<close> allocated before the call, the references of \<open>c\<close>, the stickers
  of its faces and its history are the same after the call as before. A clone of \<open>c\<close>
  consists of fresh objects and arrays only, none shared with \<open>c\<close>.
\<close>

theorem solve_leaves_input:
  assumes "solveRef cubeState st = (r, st')"
  shows "unchangedBelow (nextAddr st) st st'
     \<and> (allocatedBelow (nextAddr st) cubeState st \<longrightarrow>
          cubeAddrs cubeState st' = cubeAddrs cubeState st
          \<and> cubeValue st' cubeState = cubeValue st cubeState)
     \<and> (\<forall>newState st1. cloneRef cubeState st = (newState, st1) \<longrightarrow>
          freshFrom (nextAddr st) newState st1 \<and> unchangedBelow (nextAddr st) st st1)"
proof -
  from solveRef_unchanged [OF assms] have u: "unchangedBelow (nextAddr st) st st'" .
  with unchangedBelow_value [OF u] cloneRef_fresh show ?thesis by blast
qed

theorem solve_leaves_input_witness:
  "allocatedBelow (nextAddr turnedStore) 8 turnedStore
   \<and> \<not> isSolvedRef 8 turnedStore
   \<and> moveHistory (cubeValue turnedStore 8) = [''U'']
   \<and> cubeAddrs 8 (snd (solveRef 8 turnedStore)) = cubeAddrs 8 turnedStore
   \<and> cubeValue (snd (solveRef 8 turnedStore)) 8 = cubeValue turnedStore 8"
proof -
  have a: "allocatedBelow (nextAddr turnedStore) 8 turnedStore"
    by (simp add: allocatedBelow_def cubeAddrs_def facesOf_def turnedStore_def)
  have n: "\<not> isSolvedRef 8 turnedStore"
    by (simp add: isSolvedRef_def cubeValue_def facesOf_def isSolved_def faceArrays_def
          turnedStore_def)
  have h: "moveHistory (cubeValue turnedStore 8) = [''U'']"
    by (simp add: cubeValue_def facesOf_def turnedStore_def)
  from solve_leaves_input [of 8 turnedStore "fst (solveRef 8 turnedStore)"
      "snd (solveRef 8 turnedStore)"] a
  have "cubeAddrs 8 (snd (solveRef 8 turnedStore)) = cubeAddrs 8 turnedStore
      \<and> cubeValue (snd (solveRef 8 turnedStore)) 8 = cubeValue turnedStore 8"
    by simp
  with a n h show ?thesis by simp
qed

end
